theory Spec2Isabelle
  imports Complex_Main "HOL-Library.Multiset"
begin

section \<open>The Plan aggregate of the planning agent system (models.py)\<close>

text \<open>
  The theory embeds the internal models \<open>Step\<close> and \<open>Plan\<close> of \<^verbatim>\<open>src/models.py\<close> and
  the methods of \<open>Plan\<close>. A Python method that mutates \<open>self\<close> is a function from the plan
  to the updated plan (paired with the return value when there is one).

  Two inputs that the Python reads from its environment are made explicit:
  \<^item> \<^verbatim>\<open>datetime.utcnow()\<close>: every operation takes a clock \<open>clock :: nat \<Rightarrow> timestamp\<close>;
    \<open>clock k\<close> is the value of the \<open>k\<close>-th call of \<^verbatim>\<open>utcnow\<close> (counted from 0) that the
    operation makes, in program order;
  \<^item> \<^verbatim>\<open>uuid4()\<close>: \<open>add_step\<close> takes the identifier \<open>new_id\<close> that the default factory
    of \<open>Step.step_id\<close> returns.
\<close>

subsection \<open>Data model\<close>

datatype PlanStatus =
  Plan_Not_Started | Plan_In_Progress | Plan_Completed | Plan_Paused | Plan_Failed

datatype StepStatus =
  Step_Pending | Step_In_Progress | Step_Completed | Step_Failed | Step_Skipped

type_synonym timestamp = nat

type_synonym clock = "nat \<Rightarrow> timestamp"

record Step =
  step_id :: string
  order :: int
  description :: string
  status :: StepStatus
  depends_on :: "string list"
  step_notes :: "string option"
  created_at :: timestamp
  updated_at :: timestamp
  completed_at :: "timestamp option"

record Plan =
  plan_id :: string
  name :: string
  plan_description :: string
  plan_status :: PlanStatus
  user_id :: string
  plan_created_at :: timestamp
  plan_updated_at :: timestamp
  steps :: "Step list"

subsection \<open>Step.update\_status\<close>

text \<open>
  \<^verbatim>\<open>update_status\<close> reads the clock once for \<open>updated_at\<close> and, when the new status is
  completed, a second time for \<open>completed_at\<close>. \<open>update_status_reads\<close> is the number of
  clock reads it makes.
\<close>

definition update_status :: "clock \<Rightarrow> StepStatus \<Rightarrow> string option \<Rightarrow> Step \<Rightarrow> Step" where
  "update_status clock st nts s =
     (let s1 = s\<lparr>status := st, updated_at := clock 0\<rparr>;
          s2 = (if st = Step_Completed then s1\<lparr>completed_at := Some (clock 1)\<rparr> else s1)
      in case nts of None \<Rightarrow> s2 | Some n \<Rightarrow> s2\<lparr>step_notes := Some n\<rparr>)"

definition update_status_reads :: "StepStatus \<Rightarrow> nat" where
  "update_status_reads st = (if st = Step_Completed then 2 else 1)"

subsection \<open>Plan.\_update\_plan\_status\<close>

definition derive_status :: "Step list \<Rightarrow> PlanStatus" where
  "derive_status ss =
     (if ss = [] then Plan_Not_Started
      else let step_statuses = map status ss in
        if list_all (\<lambda>st. st = Step_Completed) step_statuses then Plan_Completed
        else if list_ex (\<lambda>st. st = Step_Failed) step_statuses then Plan_Failed
        else if list_ex (\<lambda>st. st \<in> set [Step_In_Progress, Step_Completed]) step_statuses
          then Plan_In_Progress
        else Plan_Not_Started)"

definition update_plan_status :: "Plan \<Rightarrow> Plan" where
  "update_plan_status p = p\<lparr>plan_status := derive_status (steps p)\<rparr>"

subsection \<open>Plan.get\_step\<close>

text \<open>The loop returns the first step of the list with the identifier.\<close>

definition get_step :: "Plan \<Rightarrow> string \<Rightarrow> Step option" where
  "get_step p sid = find (\<lambda>s. step_id s = sid) (steps p)"

subsection \<open>Plan.add\_step\<close>

text \<open>
  The first loop inserts the new step before the first existing step whose order is
  greater than the requested one, and appends it when there is none.
\<close>

fun insert_step :: "Step \<Rightarrow> Step list \<Rightarrow> Step list" where
  "insert_step step [] = [step]"
| "insert_step step (existing_step # rest) =
     (if order existing_step > order step then step # existing_step # rest
      else existing_step # insert_step step rest)"

text \<open>The second loop increments the order of every step item that has another
  identifier than the new step and an order not below the requested one.\<close>

definition reorder_item :: "string \<Rightarrow> int \<Rightarrow> Step \<Rightarrow> Step" where
  "reorder_item new_id ord step_item =
     (if step_id step_item \<noteq> new_id \<and> order step_item \<ge> ord
      then step_item\<lparr>order := order step_item + 1\<rparr> else step_item)"

definition add_step ::
  "clock \<Rightarrow> string \<Rightarrow> Plan \<Rightarrow> string \<Rightarrow> int option \<Rightarrow> string list option \<Rightarrow> string option
     \<Rightarrow> string \<times> Plan" where
  "add_step clock new_id p descr order_arg deps nts =
     (let ord = (case order_arg of None \<Rightarrow> int (length (steps p)) + 1 | Some k \<Rightarrow> k);
          step = \<lparr>step_id = new_id, order = ord, description = descr,
                  status = Step_Pending,
                  depends_on = (case deps of None \<Rightarrow> [] | Some ds \<Rightarrow> ds),
                  step_notes = nts, created_at = clock 0, updated_at = clock 1,
                  completed_at = None\<rparr>;
          inserted = insert_step step (steps p);
          reordered = map (reorder_item new_id ord) inserted
      in (new_id, update_plan_status (p\<lparr>steps := reordered, plan_updated_at := clock 2\<rparr>)))"

subsection \<open>Plan.update\_step\<close>

text \<open>
  \<^verbatim>\<open>get_step\<close> returns a reference to the first step with the identifier, which
  \<^verbatim>\<open>update_step\<close> then mutates in place: \<open>update_first\<close> applies the change to that
  element of the list.
\<close>

fun update_first :: "string \<Rightarrow> (Step \<Rightarrow> Step) \<Rightarrow> Step list \<Rightarrow> Step list" where
  "update_first sid f [] = []"
| "update_first sid f (s # ss) =
     (if step_id s = sid then f s # ss else s # update_first sid f ss)"

definition update_step ::
  "clock \<Rightarrow> Plan \<Rightarrow> string \<Rightarrow> StepStatus option \<Rightarrow> string option \<Rightarrow> bool \<times> Plan" where
  "update_step clock p sid status_arg nts =
     (case get_step p sid of
        None \<Rightarrow> (False, p)
      | Some _ \<Rightarrow>
          (case status_arg of
             Some st \<Rightarrow>
               (True, update_plan_status
                  (p\<lparr>steps := update_first sid (update_status clock st nts) (steps p),
                     plan_updated_at := clock (update_status_reads st)\<rparr>))
           | None \<Rightarrow>
               (case nts of
                  Some n \<Rightarrow>
                    (True, update_plan_status
                       (p\<lparr>steps := update_first sid
                                      (\<lambda>s. s\<lparr>step_notes := Some n, updated_at := clock 0\<rparr>) (steps p),
                          plan_updated_at := clock 1\<rparr>))
                | None \<Rightarrow>
                    (True, update_plan_status (p\<lparr>plan_updated_at := clock 0\<rparr>)))))"

subsection \<open>Plan.delete\_step\<close>

text \<open>
  The list comprehension drops every step with the identifier; \<^verbatim>\<open>list.sort\<close> is stable,
  as \<open>sort_key\<close> is; the loop numbers the sorted steps from 1.
\<close>

definition renumber :: "Step list \<Rightarrow> Step list" where
  "renumber ss = map (\<lambda>(i, step_item). step_item\<lparr>order := int i + 1\<rparr>) (enumerate 0 ss)"

definition delete_step :: "clock \<Rightarrow> Plan \<Rightarrow> string \<Rightarrow> bool \<times> Plan" where
  "delete_step clock p sid =
     (case get_step p sid of
        None \<Rightarrow> (False, p)
      | Some _ \<Rightarrow>
          (let remaining = filter (\<lambda>s. step_id s \<noteq> sid) (steps p);
               sorted_steps = sort_key order remaining
           in (True, update_plan_status
                 (p\<lparr>steps := renumber sorted_steps, plan_updated_at := clock 0\<rparr>))))"

subsection \<open>Plan.reset\_steps\<close>

text \<open>The loop reads the clock once for each step, the plan once more after it.\<close>

definition reset_steps :: "clock \<Rightarrow> Plan \<Rightarrow> Plan" where
  "reset_steps clock p =
     p\<lparr>steps := map (\<lambda>(i, step). step\<lparr>status := Step_Pending, completed_at := None,
                                         updated_at := clock i\<rparr>) (enumerate 0 (steps p)),
       plan_status := Plan_Not_Started,
       plan_updated_at := clock (length (steps p))\<rparr>"

subsection \<open>Plan.get\_next\_step and Plan.\_dependencies\_met\<close>

fun dependencies_loop :: "Plan \<Rightarrow> string list \<Rightarrow> bool" where
  "dependencies_loop p [] = True"
| "dependencies_loop p (dep_id # rest) =
     (case get_step p dep_id of
        None \<Rightarrow> False
      | Some dep_step \<Rightarrow>
          if status dep_step \<noteq> Step_Completed then False else dependencies_loop p rest)"

definition dependencies_met :: "Plan \<Rightarrow> Step \<Rightarrow> bool" where
  "dependencies_met p step =
     (if depends_on step = [] then True else dependencies_loop p (depends_on step))"

definition get_next_step :: "Plan \<Rightarrow> Step option" where
  "get_next_step p =
     find (\<lambda>step. status step = Step_Pending \<and> dependencies_met p step)
       (sort_key order (steps p))"

subsection \<open>Example data\<close>

definition clock_from :: "timestamp \<Rightarrow> clock" where
  "clock_from t k = t + k"

definition mk_step :: "string \<Rightarrow> int \<Rightarrow> StepStatus \<Rightarrow> string list \<Rightarrow> Step" where
  "mk_step sid ord st deps =
     \<lparr>step_id = sid, order = ord, description = ''work'', status = st, depends_on = deps,
      step_notes = None, created_at = 0, updated_at = 0, completed_at = None\<rparr>"

definition mk_plan :: "PlanStatus \<Rightarrow> Step list \<Rightarrow> Plan" where
  "mk_plan st ss =
     \<lparr>plan_id = ''p'', name = ''plan'', plan_description = ''goal'', plan_status = st,
      user_id = ''u'', plan_created_at = 0, plan_updated_at = 0, steps = ss\<rparr>"

definition three_steps :: "Step list" where
  "three_steps =
     [mk_step ''a'' 1 Step_Completed [], mk_step ''b'' 2 Step_Pending [''a''],
      mk_step ''c'' 3 Step_Pending []]"

definition example_plan :: Plan where
  "example_plan = mk_plan Plan_In_Progress three_steps"

subsection \<open>Auxiliary notions of the proofs\<close>

text \<open>What the second loop of \<open>add_step\<close> does to the order of an existing step.\<close>

definition shift_from :: "int \<Rightarrow> int \<Rightarrow> int" where
  "shift_from ord k = (if k \<ge> ord then k + 1 else k)"

subsection \<open>Eligibility, in the words of the specification\<close>

text \<open>
  A dependency identifier resolves when \<open>get_step\<close> finds a step for it; a step is
  eligible when every identifier in its \<open>depends_on\<close> resolves to a step whose status is
  completed.
\<close>

definition resolves_completed :: "Plan \<Rightarrow> string \<Rightarrow> bool" where
  "resolves_completed p dep_id =
     (case get_step p dep_id of None \<Rightarrow> False | Some t \<Rightarrow> status t = Step_Completed)"

definition eligible :: "Plan \<Rightarrow> Step \<Rightarrow> bool" where
  "eligible p s = (\<forall>dep_id \<in> set (depends_on s). resolves_completed p dep_id)"

subsection \<open>Status derivation, in the words of the specification\<close>

text \<open>
  The precedence rule over the multiset of the step statuses: empty, all completed, any
  failed, any in progress or completed, otherwise.
\<close>

definition status_rule :: "StepStatus multiset \<Rightarrow> PlanStatus" where
  "status_rule M =
     (if M = {#} then Plan_Not_Started
      else if \<forall>st \<in># M. st = Step_Completed then Plan_Completed
      else if Step_Failed \<in># M then Plan_Failed
      else if Step_In_Progress \<in># M \<or> Step_Completed \<in># M then Plan_In_Progress
      else Plan_Not_Started)"

text \<open>A plan whose three steps are all completed.\<close>

definition all_completed :: "Step list" where
  "all_completed =
     [mk_step ''a'' 1 Step_Completed [], mk_step ''b'' 2 Step_Completed [],
      mk_step ''c'' 3 Step_Completed []]"

text \<open>A plan in progress: the first step completed at time 4, the second in progress.\<close>

definition worked_plan :: Plan where
  "worked_plan =
     mk_plan Plan_In_Progress
       [(mk_step ''a'' 1 Step_Completed [])\<lparr>completed_at := Some 4, step_notes := Some ''done''\<rparr>,
        mk_step ''b'' 2 Step_In_Progress [''a'']]"

subsection \<open>ManagementService.update\_plan\_metadata (services.py)\<close>

text \<open>
  The assignments that \<^verbatim>\<open>update_plan_metadata\<close> makes to the plan it has loaded, before it
  saves it: \<open>plan\<close> is the plan that \<^verbatim>\<open>db_connection.get_plan\<close> returned.
\<close>

definition update_plan_metadata ::
  "clock \<Rightarrow> Plan \<Rightarrow> string option \<Rightarrow> string option \<Rightarrow> PlanStatus option \<Rightarrow> Plan" where
  "update_plan_metadata clock plan name_arg description_arg status_arg =
     (let p1 = (case name_arg of None \<Rightarrow> plan | Some n \<Rightarrow> plan\<lparr>name := n\<rparr>);
          p2 = (case description_arg of None \<Rightarrow> p1 | Some d \<Rightarrow> p1\<lparr>plan_description := d\<rparr>);
          p3 = (case status_arg of None \<Rightarrow> p2 | Some st \<Rightarrow> p2\<lparr>plan_status := st\<rparr>)
      in p3\<lparr>plan_updated_at := clock 0\<rparr>)"

subsection \<open>Projections used in the statements\<close>

text \<open>The identifier of a step with its \<open>completed_at\<close>.\<close>

definition id_completed :: "Step \<Rightarrow> string \<times> timestamp option" where
  "id_completed s = (step_id s, completed_at s)"

text \<open>A plan with the \<open>updated_at\<close> of the plan and of every step set to 0.\<close>

definition without_updated_at :: "Plan \<Rightarrow> Plan" where
  "without_updated_at p =
     p\<lparr>plan_updated_at := 0, steps := map (\<lambda>s. s\<lparr>updated_at := 0\<rparr>) (steps p)\<rparr>"

subsection \<open>Plan.get\_progress\<close>

text \<open>
  The completion percentage is a Python float. The float arithmetic is a parameter of
  the model: \<open>float_zero\<close> is the literal \<^verbatim>\<open>0.0\<close>, \<open>float_div\<close> the true division of two
  integers, \<open>float_times_100\<close> the product with 100 and \<open>float_round_2\<close> is
  \<^verbatim>\<open>round(x, 2)\<close>. The counts are integers. The branch of the conditional expression for a
  total that is not positive cannot be reached, the empty plan having returned before.
\<close>

record 'f float_ops =
  float_zero :: 'f
  float_div :: "nat \<Rightarrow> nat \<Rightarrow> 'f"
  float_times_100 :: "'f \<Rightarrow> 'f"
  float_round_2 :: "'f \<Rightarrow> 'f"

record 'f Progress =
  total_steps :: nat
  completed_steps :: nat
  in_progress_steps :: nat
  pending_steps :: nat
  failed_steps :: nat
  skipped_steps :: nat
  completion_percentage :: 'f

definition count_status :: "StepStatus \<Rightarrow> Step list \<Rightarrow> nat" where
  "count_status st ss = length (filter (\<lambda>step. status step = st) ss)"

definition get_progress :: "'f float_ops \<Rightarrow> Plan \<Rightarrow> 'f Progress" where
  "get_progress ops p =
     (let total = length (steps p) in
      if total = 0 then
        \<lparr>total_steps = 0, completed_steps = 0, in_progress_steps = 0, pending_steps = 0,
         failed_steps = 0, skipped_steps = 0, completion_percentage = float_zero ops\<rparr>
      else
        let completed = count_status Step_Completed (steps p);
            in_progress = count_status Step_In_Progress (steps p);
            pending = count_status Step_Pending (steps p);
            failed = count_status Step_Failed (steps p);
            skipped = count_status Step_Skipped (steps p);
            percentage = (if total > 0 then float_times_100 ops (float_div ops completed total)
                          else float_zero ops)
        in \<lparr>total_steps = total, completed_steps = completed, in_progress_steps = in_progress,
            pending_steps = pending, failed_steps = failed, skipped_steps = skipped,
            completion_percentage = float_round_2 ops percentage\<rparr>)"

subsection \<open>Python float arithmetic\<close>

text \<open>
  A Python float is an IEEE 754 binary64 number, here the rational number it stands for.
  \<open>round_binary64 x\<close> is the binary64 number nearest to \<open>x\<close>, ties to the even
  significand, for \<open>0 \<le> x < 2 ^ 53\<close> (nothing larger than 10000 occurs below): \<open>x\<close> is
  doubled until it reaches \<open>2 ^ 52\<close>, at most 1074 times (the exponent of the subnormal
  numbers), rounded to an integer and scaled back.

  The operations of \<^verbatim>\<open>get_progress\<close>: \<^verbatim>\<open>completed / total\<close> on two integers is the correctly
  rounded quotient; \<^verbatim>\<open>x * 100\<close> is the correctly rounded product; \<^verbatim>\<open>round(x, 2)\<close> rounds
  the exact value of \<open>x\<close> to two decimals, ties to even, and returns the binary64 number
  nearest to that decimal. \<^verbatim>\<open>get_progress\<close> divides only by a positive total.
\<close>

definition round_half_even :: "rat \<Rightarrow> int" where
  "round_half_even x =
     (let f = \<lfloor>x\<rfloor>; r = x - of_int f
      in if r < 1 / 2 then f else if r > 1 / 2 then f + 1 else if even f then f else f + 1)"

fun scale_exponent :: "nat \<Rightarrow> rat \<Rightarrow> nat" where
  "scale_exponent 0 x = 0"
| "scale_exponent (Suc n) x = (if x \<ge> 2 ^ 52 then 0 else Suc (scale_exponent n (2 * x)))"

definition round_binary64 :: "rat \<Rightarrow> rat" where
  "round_binary64 x =
     (let k = scale_exponent 1074 x in of_int (round_half_even (x * 2 ^ k)) / 2 ^ k)"

definition binary64_ops :: "rat float_ops" where
  "binary64_ops =
     \<lparr>float_zero = 0,
      float_div = (\<lambda>a b. round_binary64 (of_nat a / of_nat b)),
      float_times_100 = (\<lambda>x. round_binary64 (x * 100)),
      float_round_2 = (\<lambda>x. round_binary64 (of_int (round_half_even (x * 100)) / 100))\<rparr>"

text \<open>The percentage that \<open>get_progress\<close> computes from the two counts.\<close>

definition python_percentage :: "nat \<Rightarrow> nat \<Rightarrow> rat" where
  "python_percentage c t =
     round_binary64 (of_int (round_half_even
        (round_binary64 (round_binary64 (of_nat c / of_nat t) * 100) * 100)) / 100)"

subsection \<open>The percentage, in the words of the specification\<close>

text \<open>
  \<open>100 \<times> completed / total\<close> as a number, and a number rounded to two decimal places
  (ties to even, as Python rounds; the example below is the same with ties away from 0).
\<close>

definition exact_percentage :: "nat \<Rightarrow> nat \<Rightarrow> rat" where
  "exact_percentage c t = 100 * of_nat c / of_nat t"

definition rounded_2 :: "rat \<Rightarrow> rat" where
  "rounded_2 x = of_int (round_half_even (x * 100)) / 100"

definition rounded_2_half_up :: "rat \<Rightarrow> rat" where
  "rounded_2_half_up x = of_int \<lfloor>x * 100 + 1 / 2\<rfloor> / 100"

text \<open>A plan of 160 steps with orders 1 to 160, the first 23 completed, the others pending.\<close>

fun numbered_steps :: "StepStatus \<Rightarrow> nat \<Rightarrow> nat \<Rightarrow> Step list" where
  "numbered_steps st first 0 = []"
| "numbered_steps st first (Suc n) =
     mk_step (replicate (Suc first) (CHR ''s'')) (int first + 1) st []
       # numbered_steps st (Suc first) n"

definition plan_23_of_160 :: Plan where
  "plan_23_of_160 =
     mk_plan Plan_In_Progress
       (numbered_steps Step_Completed 0 23 @ numbered_steps Step_Pending 23 137)"

section \<open>Properties\<close>

lemmas example_defs = example_plan_def three_steps_def mk_plan_def mk_step_def clock_from_def

subsection \<open>Lookup\<close>

lemma get_step_None_iff: "get_step p sid = None \<longleftrightarrow> sid \<notin> step_id ` set (steps p)"
  by (auto simp: get_step_def find_None_iff)

lemma get_step_SomeD:
  "get_step p sid = Some s \<Longrightarrow> s \<in> set (steps p) \<and> step_id s = sid"
  by (auto simp: get_step_def find_Some_iff)

subsection \<open>Unknown step identifiers\<close>

text \<open>
  Claim C5. When \<open>sid\<close> is the identifier of no step of the plan, \<open>update_step\<close> and
  \<open>delete_step\<close> return \<open>False\<close> and the plan they return is the plan they were given:
  every step, the step list, the plan status and the plan's \<open>updated_at\<close> are as before.
\<close>

theorem unknown_step_no_mutation:
  assumes "sid \<notin> step_id ` set (steps p)"
  shows "update_step clock p sid status_arg nts = (False, p)
       \<and> delete_step clock' p sid = (False, p)"
proof -
  from assms have "get_step p sid = None"
    by (simp add: get_step_None_iff)
  then show ?thesis
    by (simp add: update_step_def delete_step_def)
qed

theorem unknown_step_no_mutation_witness:
  "update_step (clock_from 5) (mk_plan Plan_Paused [mk_step ''a'' 1 Step_Completed []]) ''b''
      (Some Step_Failed) (Some ''n'')
     = (False, mk_plan Plan_Paused [mk_step ''a'' 1 Step_Completed []])
   \<and> delete_step (clock_from 5) (mk_plan Plan_Paused [mk_step ''a'' 1 Step_Completed []]) ''b''
     = (False, mk_plan Plan_Paused [mk_step ''a'' 1 Step_Completed []])"
  using unknown_step_no_mutation
    [of "''b''" "mk_plan Plan_Paused [mk_step ''a'' 1 Step_Completed []]"
        "clock_from 5" "Some Step_Failed" "Some ''n''" "clock_from 5"]
  by (simp add: mk_plan_def mk_step_def)

subsection \<open>Contiguous orders\<close>

lemma mset_insert_step: "mset (insert_step step xs) = add_mset step (mset xs)"
  by (induction xs) auto

lemma length_insert_step: "length (insert_step step xs) = Suc (length xs)"
  by (induction xs) auto

lemma orders_after_insert:
  assumes "new_id \<notin> step_id ` set xs" "step_id step = new_id" "order step = ord"
  shows "mset (map order (map (reorder_item new_id ord) (insert_step step xs)))
       = add_mset ord (image_mset (shift_from ord) (mset (map order xs)))"
proof -
  have new: "order (reorder_item new_id ord step) = ord"
    using assms by (simp add: reorder_item_def)
  have old: "image_mset (\<lambda>s. order (reorder_item new_id ord s)) (mset xs)
           = image_mset (\<lambda>s. shift_from ord (order s)) (mset xs)"
    using assms(1) by (intro image_mset_cong) (auto simp: reorder_item_def shift_from_def)
  have "mset (map order (map (reorder_item new_id ord) (insert_step step xs)))
        = image_mset (\<lambda>s. order (reorder_item new_id ord s)) (mset (insert_step step xs))"
    by (simp add: comp_def)
  also have "\<dots> = add_mset ord (image_mset (\<lambda>s. shift_from ord (order s)) (mset xs))"
    by (simp add: mset_insert_step new old)
  finally show ?thesis
    by (simp add: comp_def multiset.map_comp)
qed

lemma map_succ_upto: "map (\<lambda>k. k + 1) [a..b] = [a + 1..b + 1]"
proof (induction a b rule: upto.induct)
  case (1 i j)
  then show ?case
    by (cases "i \<le> j") (simp_all add: upto_rec1)
qed

lemma shift_upto:
  assumes "1 \<le> k" "k \<le> n + 1"
  shows "add_mset k (mset (map (shift_from k) [1..n])) = mset [1..n + 1]"
proof -
  have split: "[1..n] = [1..k - 1] @ [k..n]"
  proof (cases "k \<le> n")
    case True
    with assms show ?thesis by (intro upto_split1) simp_all
  next
    case False
    with assms have "k = n + 1" by simp
    then show ?thesis by simp
  qed
  have low: "map (shift_from k) [1..k - 1] = [1..k - 1]"
    by (rule map_idI) (simp add: shift_from_def)
  have high: "map (shift_from k) [k..n] = [k + 1..n + 1]"
  proof -
    have "map (shift_from k) [k..n] = map (\<lambda>x. x + 1) [k..n]"
      by (rule map_cong) (simp_all add: shift_from_def)
    then show ?thesis by (simp add: map_succ_upto)
  qed
  have "[1..n + 1] = [1..k - 1] @ k # [k + 1..n + 1]"
    using assms by (intro upto_split3) simp_all
  then show ?thesis
    by (simp add: split low high)
qed

lemma map_int_upt: "map (\<lambda>i. int i + 1) [0..<k] = [1..int k]"
proof (induction k)
  case 0
  then show ?case by simp
next
  case (Suc k)
  have "[1..int (Suc k)] = [1..int k] @ [int k + 1]"
    using upto_rec2 [of 1 "int (Suc k)"] by simp
  with Suc show ?case by simp
qed

lemma order_renumber_from:
  "map (\<lambda>(i, s). order (s\<lparr>order := int i + 1\<rparr>)) (enumerate n ss)
     = map (\<lambda>i. int i + 1) [n..<n + length ss]"
proof (induction ss arbitrary: n)
  case Nil
  then show ?case by simp
next
  case (Cons s ss)
  have "n < n + length (s # ss)"
    by simp
  then have "[n..<n + length (s # ss)] = n # [Suc n..<n + length (s # ss)]"
    by (rule upt_conv_Cons)
  then have "[n..<n + length (s # ss)] = n # [Suc n..<Suc n + length ss]"
    by simp
  with Cons [of "Suc n"] show ?case
    by (simp del: upt_Suc)
qed

lemma order_renumber: "map order (renumber ss) = [1..int (length ss)]"
proof -
  have "map order (renumber ss)
        = map (\<lambda>(i, s). order (s\<lparr>order := int i + 1\<rparr>)) (enumerate 0 ss)"
    by (simp add: renumber_def comp_def split_def)
  then show ?thesis
    by (simp only: order_renumber_from map_int_upt add_0)
qed

lemma length_renumber: "length (renumber ss) = length ss"
  by (simp add: renumber_def)

text \<open>
  Claim C1 (as amended). Let the orders of the steps of a plan be, as a multiset, exactly
  \<open>1, \<dots>, N\<close> for \<open>N\<close> the number of steps. After \<open>add_step\<close> with a fresh identifier
  and with the order omitted or a requested order between \<open>1\<close> and \<open>N + 1\<close>, the plan
  has \<open>N + 1\<close> steps and their orders are exactly \<open>1, \<dots>, N + 1\<close>; after a successful
  \<open>delete_step\<close> the orders are exactly \<open>1, \<dots>, M\<close> for \<open>M\<close> the new number of steps.
\<close>

theorem contiguous_orders_preserved:
  assumes "mset (map order (steps p)) = mset [1..int (length (steps p))]"
  shows "(new_id \<notin> step_id ` set (steps p)
            \<and> (case order_arg of None \<Rightarrow> True
                | Some k \<Rightarrow> 1 \<le> k \<and> k \<le> int (length (steps p)) + 1)
          \<longrightarrow> (let p' = snd (add_step clock new_id p descr order_arg deps nts)
               in length (steps p') = length (steps p) + 1
                \<and> mset (map order (steps p')) = mset [1..int (length (steps p'))]))
       \<and> (\<forall>p'. delete_step clock' p sid = (True, p')
            \<longrightarrow> mset (map order (steps p')) = mset [1..int (length (steps p'))])"
proof (intro conjI impI allI)
  assume h: "new_id \<notin> step_id ` set (steps p)
            \<and> (case order_arg of None \<Rightarrow> True
                | Some k \<Rightarrow> 1 \<le> k \<and> k \<le> int (length (steps p)) + 1)"
  define ord where "ord = (case order_arg of None \<Rightarrow> int (length (steps p)) + 1 | Some k \<Rightarrow> k)"
  define step where "step = \<lparr>step_id = new_id, order = ord, description = descr,
                  status = Step_Pending,
                  depends_on = (case deps of None \<Rightarrow> [] | Some ds \<Rightarrow> ds),
                  step_notes = nts, created_at = clock 0, updated_at = clock 1,
                  completed_at = None\<rparr>"
  have bounds: "1 \<le> ord" "ord \<le> int (length (steps p)) + 1"
    using h by (auto simp: ord_def split: option.splits)
  have st: "steps (snd (add_step clock new_id p descr order_arg deps nts))
          = map (reorder_item new_id ord) (insert_step step (steps p))"
    by (simp add: add_step_def update_plan_status_def Let_def ord_def step_def)
  have "mset (map order (map (reorder_item new_id ord) (insert_step step (steps p))))
        = add_mset ord (image_mset (shift_from ord) (mset (map order (steps p))))"
    using h by (intro orders_after_insert) (simp_all add: step_def)
  also have "\<dots> = add_mset ord (mset (map (shift_from ord) [1..int (length (steps p))]))"
    by (simp add: assms flip: mset_map)
  also have "\<dots> = mset [1..int (length (steps p)) + 1]"
    using bounds by (rule shift_upto)
  finally have ords: "mset (map order (map (reorder_item new_id ord) (insert_step step (steps p))))
                    = mset [1..int (length (steps p)) + 1]" .
  have len: "length (map (reorder_item new_id ord) (insert_step step (steps p)))
           = length (steps p) + 1"
    by (simp add: length_insert_step)
  then have "int (length (map (reorder_item new_id ord) (insert_step step (steps p))))
           = int (length (steps p)) + 1"
    by simp
  with ords len show "let p' = snd (add_step clock new_id p descr order_arg deps nts)
               in length (steps p') = length (steps p) + 1
                \<and> mset (map order (steps p')) = mset [1..int (length (steps p'))]"
    unfolding Let_def st by (simp only:)
next
  fix p'
  assume "delete_step clock' p sid = (True, p')"
  then have "steps p' = renumber (sort_key order (filter (\<lambda>s. step_id s \<noteq> sid) (steps p)))"
    by (auto simp: delete_step_def update_plan_status_def Let_def split: option.splits)
  then show "mset (map order (steps p')) = mset [1..int (length (steps p'))]"
    by (simp add: order_renumber length_renumber)
qed

theorem contiguous_orders_preserved_witness:
  "mset (map order (steps example_plan)) = mset [1..3]
   \<and> map order (steps (snd (add_step (clock_from 7) ''n'' example_plan ''d'' (Some 2) None None)))
       = [1, 3, 2, 4]
   \<and> mset (map order (steps (snd (add_step (clock_from 7) ''n'' example_plan ''d'' (Some 2) None None))))
       = mset [1..4]
   \<and> mset (map order (steps (snd (delete_step (clock_from 7) example_plan ''b'')))) = mset [1..2]"
proof -
  have hyp: "mset (map order (steps example_plan)) = mset [1..int (length (steps example_plan))]"
    by (simp add: example_defs upto_rec1)
  have del: "delete_step (clock_from 7) example_plan ''b''
             = (True, snd (delete_step (clock_from 7) example_plan ''b''))"
    by (simp add: delete_step_def get_step_def example_defs)
  from contiguous_orders_preserved
         [OF hyp, of "''n''" "Some 2" "clock_from 7" "''d''" None None "clock_from 7" "''b''"] del
  show ?thesis
    by (simp add: example_defs add_step_def Let_def reorder_item_def update_plan_status_def
          delete_step_def get_step_def renumber_def upto_rec1)
qed

text \<open>
  The claim as first stated allows every requested order from 1 on. A requested order
  beyond \<open>N + 1\<close> is stored as it is and no existing step moves, which leaves a gap:
  adding a step with order 10 to a plan with orders 1, 2, 3 gives the orders 1, 2, 3, 10.
\<close>

theorem add_step_far_order_counterexample:
  "mset (map order (steps example_plan)) = mset [1..int (length (steps example_plan))]
   \<and> (1::int) \<le> 10
   \<and> ''n'' \<notin> step_id ` set (steps example_plan)
   \<and> map order (steps (snd (add_step (clock_from 7) ''n'' example_plan ''d'' (Some 10) None None)))
       = [1, 2, 3, 10]
   \<and> mset (map order (steps (snd (add_step (clock_from 7) ''n'' example_plan ''d'' (Some 10) None None))))
       \<noteq> mset [1..int (length (steps (snd (add_step (clock_from 7) ''n'' example_plan ''d''
                                               (Some 10) None None))))]"
  by (simp add: example_defs add_step_def Let_def reorder_item_def update_plan_status_def upto_rec1)

subsection \<open>The next step\<close>

lemma dependencies_loop_iff:
  "dependencies_loop p ds \<longleftrightarrow> (\<forall>d \<in> set ds. resolves_completed p d)"
  by (induction ds) (auto simp: resolves_completed_def split: option.splits)

lemma dependencies_met_eligible: "dependencies_met p s = eligible p s"
  by (simp add: dependencies_met_def eligible_def dependencies_loop_iff)

lemma find_sorted_least:
  "sorted (map f ys) \<Longrightarrow> find P ys = Some s \<Longrightarrow> t \<in> set ys \<Longrightarrow> P t \<Longrightarrow> f s \<le> f t"
  by (induction ys) (auto split: if_splits)

lemma find_SomeD: "find P ys = Some s \<Longrightarrow> s \<in> set ys \<and> P s"
  by (induction ys) (auto split: if_splits)

lemma find_distinct_key:
  "distinct (map f xs) \<Longrightarrow> x \<in> set xs \<Longrightarrow> find (\<lambda>y. f y = f x) xs = Some x"
  by (induction xs) (auto simp: image_iff)

lemma resolves_completed_distinct:
  assumes "distinct (map step_id (steps p))"
  shows "resolves_completed p d
           \<longleftrightarrow> (\<exists>t \<in> set (steps p). step_id t = d \<and> status t = Step_Completed)"
proof
  assume "resolves_completed p d"
  then obtain t where "get_step p d = Some t" "status t = Step_Completed"
    by (auto simp: resolves_completed_def split: option.splits)
  with get_step_SomeD [of p d t] show "\<exists>t \<in> set (steps p). step_id t = d \<and> status t = Step_Completed"
    by blast
next
  assume "\<exists>t \<in> set (steps p). step_id t = d \<and> status t = Step_Completed"
  then obtain t where t: "t \<in> set (steps p)" "step_id t = d" "status t = Step_Completed"
    by blast
  from find_distinct_key [OF assms t(1)] t(2) have "get_step p d = Some t"
    by (simp add: get_step_def)
  with t(3) show "resolves_completed p d"
    by (simp add: resolves_completed_def)
qed

text \<open>
  Claim C2. When \<open>get_next_step\<close> returns a step, that step is a step of the plan, is
  pending and eligible, and no pending eligible step of the plan has a lower order; when
  it returns nothing, no step of the plan is both pending and eligible. A step with an
  empty \<open>depends_on\<close> is eligible; a step with a \<open>depends_on\<close> identifier that no step of
  the plan has is not eligible and is never returned. When the step identifiers of the
  plan are distinct, a step is eligible exactly if each of its \<open>depends_on\<close> identifiers is
  the identifier of a completed step of the plan.
\<close>

theorem get_next_step_lowest_eligible:
  "(case get_next_step p of
      None \<Rightarrow> \<forall>s \<in> set (steps p). \<not> (status s = Step_Pending \<and> eligible p s)
    | Some s \<Rightarrow>
        s \<in> set (steps p) \<and> status s = Step_Pending \<and> eligible p s
        \<and> (\<forall>t \<in> set (steps p). status t = Step_Pending \<and> eligible p t \<longrightarrow> order s \<le> order t))
   \<and> (\<forall>s. depends_on s = [] \<longrightarrow> eligible p s)
   \<and> (\<forall>s. (\<exists>d \<in> set (depends_on s). d \<notin> step_id ` set (steps p))
          \<longrightarrow> \<not> eligible p s \<and> get_next_step p \<noteq> Some s)
   \<and> (distinct (map step_id (steps p)) \<longrightarrow>
        (\<forall>s. eligible p s \<longleftrightarrow>
           (\<forall>d \<in> set (depends_on s).
              \<exists>t \<in> set (steps p). step_id t = d \<and> status t = Step_Completed)))"
proof (intro conjI)
  let ?P = "\<lambda>step. status step = Step_Pending \<and> dependencies_met p step"
  show "case get_next_step p of
      None \<Rightarrow> \<forall>s \<in> set (steps p). \<not> (status s = Step_Pending \<and> eligible p s)
    | Some s \<Rightarrow>
        s \<in> set (steps p) \<and> status s = Step_Pending \<and> eligible p s
        \<and> (\<forall>t \<in> set (steps p). status t = Step_Pending \<and> eligible p t \<longrightarrow> order s \<le> order t)"
  proof (cases "get_next_step p")
    case None
    then have "\<forall>s \<in> set (sort_key order (steps p)). \<not> ?P s"
      by (simp add: get_next_step_def find_None_iff)
    with None show ?thesis
      by (simp add: dependencies_met_eligible)
  next
    case (Some s)
    then have f: "find ?P (sort_key order (steps p)) = Some s"
      by (simp add: get_next_step_def)
    from find_SomeD [OF f] have s: "s \<in> set (steps p)" "?P s"
      by simp_all
    have least: "order s \<le> order t" if "t \<in> set (steps p)" "?P t" for t
      using find_sorted_least [of order "sort_key order (steps p)" ?P s t] f that
      by simp
    from s least Some show ?thesis
      by (simp add: dependencies_met_eligible)
  qed
next
  show "\<forall>s. depends_on s = [] \<longrightarrow> eligible p s"
    by (simp add: eligible_def)
next
  have dangling: "\<not> eligible p s" if "\<exists>d \<in> set (depends_on s). d \<notin> step_id ` set (steps p)" for s
  proof -
    from that obtain d where d: "d \<in> set (depends_on s)" "get_step p d = None"
      by (auto simp: get_step_None_iff)
    then have "\<not> resolves_completed p d"
      by (simp add: resolves_completed_def)
    with d show ?thesis
      by (auto simp: eligible_def)
  qed
  have returned: "eligible p s" if "get_next_step p = Some s" for s
  proof -
    from that have "find (\<lambda>step. status step = Step_Pending \<and> dependencies_met p step)
                      (sort_key order (steps p)) = Some s"
      by (simp add: get_next_step_def)
    from find_SomeD [OF this] show ?thesis
      by (simp add: dependencies_met_eligible)
  qed
  from dangling returned
  show "\<forall>s. (\<exists>d \<in> set (depends_on s). d \<notin> step_id ` set (steps p))
          \<longrightarrow> \<not> eligible p s \<and> get_next_step p \<noteq> Some s"
    by blast
next
  show "distinct (map step_id (steps p)) \<longrightarrow>
        (\<forall>s. eligible p s \<longleftrightarrow>
           (\<forall>d \<in> set (depends_on s).
              \<exists>t \<in> set (steps p). step_id t = d \<and> status t = Step_Completed))"
    by (simp add: eligible_def resolves_completed_distinct)
qed

theorem get_next_step_lowest_eligible_witness:
  "distinct (map step_id (steps example_plan))
   \<and> get_next_step example_plan = Some (mk_step ''b'' 2 Step_Pending [''a''])
   \<and> mk_step ''b'' 2 Step_Pending [''a''] \<in> set (steps example_plan)
   \<and> eligible example_plan (mk_step ''b'' 2 Step_Pending [''a''])
   \<and> eligible example_plan (mk_step ''c'' 3 Step_Pending [])
   \<and> order (mk_step ''b'' 2 Step_Pending [''a'']) \<le> order (mk_step ''c'' 3 Step_Pending [])
   \<and> \<not> eligible example_plan (mk_step ''z'' 1 Step_Pending [''ghost''])
   \<and> get_next_step (mk_plan Plan_In_Progress [mk_step ''z'' 1 Step_Pending [''ghost'']]) = None"
  using get_next_step_lowest_eligible [of example_plan]
    get_next_step_lowest_eligible [of "mk_plan Plan_In_Progress [mk_step ''z'' 1 Step_Pending [''ghost'']]"]
  by (simp add: example_defs get_next_step_def dependencies_met_def get_step_def
        eligible_def resolves_completed_def)

subsection \<open>Derived plan status\<close>

lemma derive_status_rule: "derive_status ss = status_rule (mset (map status ss))"
proof (cases "ss = []")
  case True
  then show ?thesis
    by (simp add: derive_status_def status_rule_def)
next
  case False
  have all: "list_all (\<lambda>st. st = Step_Completed) (map status ss)
             \<longleftrightarrow> (\<forall>st \<in># mset (map status ss). st = Step_Completed)"
    by (simp add: list_all_iff)
  have failed: "list_ex (\<lambda>st. st = Step_Failed) (map status ss)
             \<longleftrightarrow> Step_Failed \<in># mset (map status ss)"
    by (auto simp: list_ex_iff)
  have active: "list_ex (\<lambda>st. st \<in> set [Step_In_Progress, Step_Completed]) (map status ss)
             \<longleftrightarrow> Step_In_Progress \<in># mset (map status ss)
                \<or> Step_Completed \<in># mset (map status ss)"
    by (simp add: list_ex_iff image_iff) metis
  from False show ?thesis
    unfolding derive_status_def status_rule_def Let_def all failed active
    by simp
qed

lemma plan_status_update_plan_status [simp]:
  "plan_status (update_plan_status p) = derive_status (steps p)"
  by (simp add: update_plan_status_def)

lemma steps_update_plan_status [simp]: "steps (update_plan_status p) = steps p"
  by (simp add: update_plan_status_def)

lemma add_step_recomputes:
  "plan_status (snd (add_step clock new_id p descr order_arg deps nts))
     = derive_status (steps (snd (add_step clock new_id p descr order_arg deps nts)))"
  by (simp add: add_step_def Let_def)

lemma update_step_recomputes:
  "update_step clock p sid status_arg nts = (True, p') \<Longrightarrow> plan_status p' = derive_status (steps p')"
  by (auto simp: update_step_def split: option.splits)

lemma delete_step_recomputes:
  "delete_step clock p sid = (True, p') \<Longrightarrow> plan_status p' = derive_status (steps p')"
  by (auto simp: delete_step_def Let_def split: option.splits)

text \<open>
  Claim C3. The status that \<open>_update_plan_status\<close> stores is the precedence rule
  applied to the multiset of the step statuses, so two plans with the same multiset of
  step statuses get the same status; and the plan status after \<open>add_step\<close>, after a
  successful \<open>update_step\<close> and after a successful \<open>delete_step\<close> is the rule applied to
  the statuses of the resulting steps.
\<close>

theorem plan_status_function_of_statuses:
  "plan_status (update_plan_status p) = status_rule (mset (map status (steps p)))
   \<and> (mset (map status (steps p)) = mset (map status (steps q))
        \<longrightarrow> plan_status (update_plan_status p) = plan_status (update_plan_status q))
   \<and> plan_status (snd (add_step clock new_id p descr order_arg deps nts))
        = status_rule (mset (map status (steps (snd (add_step clock new_id p descr order_arg deps nts)))))
   \<and> (\<forall>p'. update_step clock p sid status_arg nts' = (True, p')
          \<longrightarrow> plan_status p' = status_rule (mset (map status (steps p'))))
   \<and> (\<forall>p'. delete_step clock p sid' = (True, p')
          \<longrightarrow> plan_status p' = status_rule (mset (map status (steps p'))))"
proof (intro conjI allI impI)
  show "plan_status (update_plan_status p) = status_rule (mset (map status (steps p)))"
    by (simp add: derive_status_rule)
next
  assume "mset (map status (steps p)) = mset (map status (steps q))"
  then show "plan_status (update_plan_status p) = plan_status (update_plan_status q)"
    by (simp add: derive_status_rule)
next
  show "plan_status (snd (add_step clock new_id p descr order_arg deps nts))
        = status_rule (mset (map status (steps (snd (add_step clock new_id p descr order_arg deps nts)))))"
    using add_step_recomputes [of clock new_id p descr order_arg deps nts]
    by (simp only: derive_status_rule)
next
  fix p'
  assume "update_step clock p sid status_arg nts' = (True, p')"
  from update_step_recomputes [OF this]
  show "plan_status p' = status_rule (mset (map status (steps p')))"
    by (simp only: derive_status_rule)
next
  fix p'
  assume "delete_step clock p sid' = (True, p')"
  from delete_step_recomputes [OF this]
  show "plan_status p' = status_rule (mset (map status (steps p')))"
    by (simp only: derive_status_rule)
qed

theorem plan_status_function_of_statuses_witness:
  "plan_status (update_plan_status (mk_plan Plan_Paused all_completed)) = Plan_Completed
   \<and> plan_status (update_plan_status (mk_plan Plan_Paused (rev all_completed))) = Plan_Completed
   \<and> plan_status (snd (add_step (clock_from 3) ''n'' (mk_plan Plan_Completed all_completed)
                          ''d'' None None None)) = Plan_In_Progress
   \<and> plan_status (snd (update_step (clock_from 3) (mk_plan Plan_Completed all_completed) ''b''
                          (Some Step_Failed) None)) = Plan_Failed
   \<and> plan_status (snd (delete_step (clock_from 3) example_plan ''a'')) = Plan_Not_Started"
proof -
  have upd: "update_step (clock_from 3) (mk_plan Plan_Completed all_completed) ''b''
               (Some Step_Failed) None
             = (True, snd (update_step (clock_from 3) (mk_plan Plan_Completed all_completed) ''b''
                             (Some Step_Failed) None))"
    by (simp add: update_step_def get_step_def all_completed_def example_defs)
  have del: "delete_step (clock_from 3) example_plan ''a''
             = (True, snd (delete_step (clock_from 3) example_plan ''a''))"
    by (simp add: delete_step_def get_step_def example_defs)
  have same: "mset (map status (steps (mk_plan Plan_Paused all_completed)))
            = mset (map status (steps (mk_plan Plan_Paused (rev all_completed))))"
    by (simp add: all_completed_def example_defs)
  from plan_status_function_of_statuses
         [of "mk_plan Plan_Paused all_completed" "mk_plan Plan_Paused (rev all_completed)"
             "clock_from 3" "''n''" "''d''" None None None "''zz''" None None "''zz''"]
       plan_status_function_of_statuses
         [of "mk_plan Plan_Completed all_completed" "mk_plan Plan_Completed all_completed"
             "clock_from 3" "''n''" "''d''" None None None "''b''" "Some Step_Failed" None "''zz''"]
       plan_status_function_of_statuses
         [of example_plan example_plan
             "clock_from 3" "''n''" "''d''" None None None "''zz''" None None "''a''"]
       upd del same
  show ?thesis
    by (simp add: all_completed_def example_defs status_rule_def update_step_def get_step_def
          update_status_def delete_step_def renumber_def add_step_def Let_def reorder_item_def
          derive_status_def update_plan_status_def)
qed

subsection \<open>Resetting the steps\<close>

lemma length_reset_steps: "length (steps (reset_steps clock p)) = length (steps p)"
  by (simp add: reset_steps_def)

lemma nth_reset_steps:
  "i < length (steps p) \<Longrightarrow>
   steps (reset_steps clock p) ! i
     = (steps p ! i)\<lparr>status := Step_Pending, completed_at := None, updated_at := clock i\<rparr>"
  by (simp add: reset_steps_def nth_enumerate_eq)

text \<open>
  Claim C6. \<open>reset_steps\<close> sets the plan status to not started and keeps the number of
  steps; the step at every position has status pending and no \<open>completed_at\<close>, and its
  order, description, \<open>depends_on\<close>, notes and identifier are those of the step at that
  position before.
\<close>

theorem reset_steps_frame:
  "plan_status (reset_steps clock p) = Plan_Not_Started
   \<and> length (steps (reset_steps clock p)) = length (steps p)
   \<and> (\<forall>i < length (steps p).
         status (steps (reset_steps clock p) ! i) = Step_Pending
       \<and> completed_at (steps (reset_steps clock p) ! i) = None
       \<and> order (steps (reset_steps clock p) ! i) = order (steps p ! i)
       \<and> description (steps (reset_steps clock p) ! i) = description (steps p ! i)
       \<and> depends_on (steps (reset_steps clock p) ! i) = depends_on (steps p ! i)
       \<and> step_notes (steps (reset_steps clock p) ! i) = step_notes (steps p ! i)
       \<and> step_id (steps (reset_steps clock p) ! i) = step_id (steps p ! i))"
proof (intro conjI allI impI)
  show "plan_status (reset_steps clock p) = Plan_Not_Started"
    by (simp add: reset_steps_def)
  show "length (steps (reset_steps clock p)) = length (steps p)"
    by (rule length_reset_steps)
qed (simp_all add: nth_reset_steps)

theorem reset_steps_frame_witness:
  "(1::nat) < length (steps worked_plan)
   \<and> length (steps (reset_steps (clock_from 10) worked_plan)) = 2
   \<and> map status (steps (reset_steps (clock_from 10) worked_plan)) = [Step_Pending, Step_Pending]
   \<and> completed_at (steps (reset_steps (clock_from 10) worked_plan) ! 0) = None
   \<and> step_notes (steps (reset_steps (clock_from 10) worked_plan) ! 0) = Some ''done''
   \<and> order (steps (reset_steps (clock_from 10) worked_plan) ! 1) = 2
   \<and> depends_on (steps (reset_steps (clock_from 10) worked_plan) ! 1) = [''a'']"
  using reset_steps_frame [of "clock_from 10" worked_plan]
  by (simp add: worked_plan_def example_defs reset_steps_def)

lemma reset_steps_steps_absorb:
  "map (\<lambda>(i, step). step\<lparr>status := Step_Pending, completed_at := None, updated_at := c2 i\<rparr>)
     (enumerate n (map (\<lambda>(i, step). step\<lparr>status := Step_Pending, completed_at := None,
                                          updated_at := c1 i\<rparr>) (enumerate n ss)))
   = map (\<lambda>(i, step). step\<lparr>status := Step_Pending, completed_at := None, updated_at := c2 i\<rparr>)
       (enumerate n ss)"
  by (induction ss arbitrary: n) simp_all

lemma reset_steps_forget_clock:
  "map (\<lambda>s. s\<lparr>updated_at := 0\<rparr>)
     (map (\<lambda>(i, step). step\<lparr>status := Step_Pending, completed_at := None, updated_at := c i\<rparr>)
        (enumerate n ss))
   = map (\<lambda>step. step\<lparr>status := Step_Pending, completed_at := None, updated_at := 0\<rparr>) ss"
  by (induction ss arbitrary: n) simp_all

lemma without_updated_at_reset_steps:
  "without_updated_at (reset_steps clock p)
     = p\<lparr>steps := map (\<lambda>step. step\<lparr>status := Step_Pending, completed_at := None,
                                      updated_at := 0\<rparr>) (steps p),
         plan_status := Plan_Not_Started, plan_updated_at := 0\<rparr>"
proof -
  have st: "steps (reset_steps clock p)
            = map (\<lambda>(i, step). step\<lparr>status := Step_Pending, completed_at := None,
                                      updated_at := clock i\<rparr>) (enumerate 0 (steps p))"
    by (simp add: reset_steps_def)
  show ?thesis
    unfolding without_updated_at_def st reset_steps_forget_clock
    by (simp add: reset_steps_def)
qed

text \<open>
  Claim C7 (as amended). A second \<open>reset_steps\<close> right after a first one gives the state
  that a single \<open>reset_steps\<close> with the clock readings of the second call gives; and it
  gives the state after the first call but for the \<open>updated_at\<close> of the plan and of the
  steps, which the second call writes again.
\<close>

theorem reset_steps_twice:
  "reset_steps clock2 (reset_steps clock1 p) = reset_steps clock2 p
   \<and> without_updated_at (reset_steps clock2 (reset_steps clock1 p))
       = without_updated_at (reset_steps clock1 p)"
proof -
  have again: "reset_steps clock2 (reset_steps clock1 p) = reset_steps clock2 p"
    by (simp add: reset_steps_def reset_steps_steps_absorb)
  have "without_updated_at (reset_steps clock2 p) = without_updated_at (reset_steps clock1 p)"
    by (simp only: without_updated_at_reset_steps)
  with again show ?thesis
    by simp
qed

text \<open>
  The claim as first stated compares whole plan states. The clock has moved on between
  the two calls, so the \<open>updated_at\<close> values after the second call are not those after the
  first.
\<close>

theorem reset_steps_twice_counterexample:
  "reset_steps (clock_from 20) (reset_steps (clock_from 10) worked_plan)
     \<noteq> reset_steps (clock_from 10) worked_plan
   \<and> plan_updated_at (reset_steps (clock_from 20) (reset_steps (clock_from 10) worked_plan)) = 22
   \<and> plan_updated_at (reset_steps (clock_from 10) worked_plan) = 12"
  by (simp add: worked_plan_def example_defs reset_steps_def)

subsection \<open>The paused status\<close>

lemma derive_status_not_paused: "derive_status ss \<noteq> Plan_Paused"
  by (simp add: derive_status_def Let_def)

lemma derive_status_range:
  "derive_status ss \<in> {Plan_Not_Started, Plan_Completed, Plan_Failed, Plan_In_Progress}"
  by (simp add: derive_status_def Let_def)

lemma update_step_status_cases:
  "snd (update_step clock p sid status_arg nts) = p
   \<or> plan_status (snd (update_step clock p sid status_arg nts))
       = derive_status (steps (snd (update_step clock p sid status_arg nts)))"
  by (simp add: update_step_def split: option.splits)

lemma delete_step_status_cases:
  "snd (delete_step clock p sid) = p
   \<or> plan_status (snd (delete_step clock p sid))
       = derive_status (steps (snd (delete_step clock p sid)))"
  by (simp add: delete_step_def Let_def split: option.splits)

text \<open>
  Claim C8. The derivation only yields not started, completed, failed or in progress, and
  \<open>reset_steps\<close> stores not started; so when the plan status is not paused, it is not
  paused after \<open>add_step\<close>, \<open>update_step\<close>, \<open>delete_step\<close> or \<open>reset_steps\<close>. The metadata
  update with status paused does store paused.
\<close>

theorem step_operations_never_pause:
  "plan_status (update_plan_status p)
     \<in> {Plan_Not_Started, Plan_Completed, Plan_Failed, Plan_In_Progress}
   \<and> plan_status (reset_steps clock p) = Plan_Not_Started
   \<and> (plan_status p \<noteq> Plan_Paused \<longrightarrow>
         plan_status (snd (add_step clock new_id p descr order_arg deps nts)) \<noteq> Plan_Paused
       \<and> plan_status (snd (update_step clock p sid status_arg nts')) \<noteq> Plan_Paused
       \<and> plan_status (snd (delete_step clock p sid')) \<noteq> Plan_Paused
       \<and> plan_status (reset_steps clock p) \<noteq> Plan_Paused)
   \<and> plan_status (update_plan_metadata clock p name_arg description_arg (Some Plan_Paused))
       = Plan_Paused"
proof (intro conjI impI)
  show "plan_status (update_plan_status p)
     \<in> {Plan_Not_Started, Plan_Completed, Plan_Failed, Plan_In_Progress}"
    using derive_status_range [of "steps p"] by simp
  show reset: "plan_status (reset_steps clock p) = Plan_Not_Started"
    by (simp add: reset_steps_def)
  show "plan_status (update_plan_metadata clock p name_arg description_arg (Some Plan_Paused))
       = Plan_Paused"
    by (simp add: update_plan_metadata_def Let_def split: option.splits)
  assume keep: "plan_status p \<noteq> Plan_Paused"
  show "plan_status (snd (add_step clock new_id p descr order_arg deps nts)) \<noteq> Plan_Paused"
    by (simp only: add_step_recomputes derive_status_not_paused not_False_eq_True)
  show "plan_status (snd (update_step clock p sid status_arg nts')) \<noteq> Plan_Paused"
    using update_step_status_cases [of clock p sid status_arg nts'] keep
    by (auto simp: derive_status_not_paused)
  show "plan_status (snd (delete_step clock p sid')) \<noteq> Plan_Paused"
    using delete_step_status_cases [of clock p sid'] keep
    by (auto simp: derive_status_not_paused)
  show "plan_status (reset_steps clock p) \<noteq> Plan_Paused"
    by (simp add: reset)
qed

theorem step_operations_never_pause_witness:
  "plan_status worked_plan \<noteq> Plan_Paused
   \<and> plan_status (snd (add_step (clock_from 8) ''n'' worked_plan ''d'' (Some 1) None None))
       = Plan_In_Progress
   \<and> plan_status (snd (update_step (clock_from 8) worked_plan ''b'' (Some Step_Failed) None))
       = Plan_Failed
   \<and> plan_status (snd (delete_step (clock_from 8) worked_plan ''b'')) = Plan_Completed
   \<and> plan_status (reset_steps (clock_from 8) worked_plan) = Plan_Not_Started
   \<and> plan_status (update_plan_metadata (clock_from 8) worked_plan None None (Some Plan_Paused))
       = Plan_Paused"
  using step_operations_never_pause
          [of worked_plan "clock_from 8" "''n''" "''d''" "Some 1" None None "''b''"
              "Some Step_Failed" None "''b''" None None]
  by (simp add: worked_plan_def example_defs add_step_def Let_def reorder_item_def
        update_step_def get_step_def update_status_def delete_step_def renumber_def
        reset_steps_def update_plan_metadata_def derive_status_def update_plan_status_def)

subsection \<open>The completion timestamp\<close>

lemma length_update_first: "length (update_first sid f ss) = length ss"
  by (induction ss) auto

lemma completed_at_update_first_same:
  "(\<And>s. completed_at (f s) = completed_at s) \<Longrightarrow>
   map completed_at (update_first sid f ss) = map completed_at ss"
  by (induction ss) auto

lemma completed_at_update_first_kept:
  "(\<And>s. completed_at s \<noteq> None \<Longrightarrow> completed_at (f s) \<noteq> None) \<Longrightarrow>
   i < length ss \<Longrightarrow> completed_at (ss ! i) \<noteq> None \<Longrightarrow>
   completed_at (update_first sid f ss ! i) \<noteq> None"
  by (induction ss arbitrary: i) (auto simp: nth_Cons split: nat.splits)

lemma completed_at_update_status:
  "completed_at (update_status clock st nts s)
     = (if st = Step_Completed then Some (clock 1) else completed_at s)"
  by (simp add: update_status_def Let_def split: option.splits)

lemma steps_update_step:
  "steps (snd (update_step clock p sid status_arg nts)) =
     (case get_step p sid of
        None \<Rightarrow> steps p
      | Some _ \<Rightarrow>
          (case status_arg of
             Some st \<Rightarrow> update_first sid (update_status clock st nts) (steps p)
           | None \<Rightarrow>
               (case nts of
                  Some n \<Rightarrow> update_first sid (\<lambda>s. s\<lparr>step_notes := Some n, updated_at := clock 0\<rparr>)
                              (steps p)
                | None \<Rightarrow> steps p)))"
  by (simp add: update_step_def split: option.splits)

lemma id_completed_reorder_item [simp]:
  "id_completed (reorder_item new_id ord s) = id_completed s"
  by (simp add: id_completed_def reorder_item_def)

lemma id_completed_renumber: "map id_completed (renumber ss) = map id_completed ss"
proof -
  have "map id_completed (renumber ss) = map (id_completed \<circ> snd) (enumerate 0 ss)"
    by (simp add: renumber_def id_completed_def split_def comp_def)
  also have "\<dots> = map id_completed (map snd (enumerate 0 ss))"
    by (simp only: map_map)
  finally show ?thesis
    by simp
qed

text \<open>
  Claim C9. \<open>update_step\<close> keeps the number and positions of the steps; a step that has a
  \<open>completed_at\<close> still has one afterwards, and when the new status is not completed (or
  no status is given) every step keeps its \<open>completed_at\<close> as it was. \<open>reset_steps\<close> leaves
  no step with a \<open>completed_at\<close>. \<open>add_step\<close> and \<open>delete_step\<close> do not clear one either:
  after \<open>add_step\<close> the identifiers with their \<open>completed_at\<close> are those before plus the new
  step's, after \<open>delete_step\<close> they are among those before.
\<close>

theorem update_step_keeps_completed_at:
  "length (steps (snd (update_step clock p sid status_arg nts))) = length (steps p)
   \<and> (\<forall>i < length (steps p). completed_at (steps p ! i) \<noteq> None
          \<longrightarrow> completed_at (steps (snd (update_step clock p sid status_arg nts)) ! i) \<noteq> None)
   \<and> (status_arg \<noteq> Some Step_Completed
        \<longrightarrow> map completed_at (steps (snd (update_step clock p sid status_arg nts)))
             = map completed_at (steps p))
   \<and> (\<forall>s \<in> set (steps (reset_steps clock p)). completed_at s = None)
   \<and> mset (map id_completed (steps (snd (add_step clock new_id p descr order_arg deps nts'))))
       = add_mset (new_id, None) (mset (map id_completed (steps p)))
   \<and> mset (map id_completed (steps (snd (delete_step clock p sid'))))
       \<subseteq># mset (map id_completed (steps p))"
proof (intro conjI allI impI)
  show "length (steps (snd (update_step clock p sid status_arg nts))) = length (steps p)"
    by (simp add: steps_update_step length_update_first split: option.splits)
next
  fix i
  assume i: "i < length (steps p)" "completed_at (steps p ! i) \<noteq> None"
  have kept: "completed_at (update_first sid f (steps p) ! i) \<noteq> None"
    if "\<And>s. completed_at s \<noteq> None \<Longrightarrow> completed_at (f s) \<noteq> None" for f
    using that i by (rule completed_at_update_first_kept)
  have by_status: "completed_at (update_first sid (update_status clock st nts) (steps p) ! i) \<noteq> None"
    for st
    by (rule kept) (simp add: completed_at_update_status)
  have by_notes: "completed_at (update_first sid
                     (\<lambda>s. s\<lparr>step_notes := Some n, updated_at := clock 0\<rparr>) (steps p) ! i) \<noteq> None"
    for n
    by (rule kept) simp
  from i by_status by_notes
  show "completed_at (steps (snd (update_step clock p sid status_arg nts)) ! i) \<noteq> None"
    by (simp add: steps_update_step split: option.splits)
next
  assume "status_arg \<noteq> Some Step_Completed"
  then show "map completed_at (steps (snd (update_step clock p sid status_arg nts)))
             = map completed_at (steps p)"
    by (auto simp: steps_update_step completed_at_update_status
             intro!: completed_at_update_first_same split: option.splits)
next
  show "\<forall>s \<in> set (steps (reset_steps clock p)). completed_at s = None"
    by (auto simp: reset_steps_def)
next
  show "mset (map id_completed (steps (snd (add_step clock new_id p descr order_arg deps nts'))))
       = add_mset (new_id, None) (mset (map id_completed (steps p)))"
    by (simp add: add_step_def Let_def update_plan_status_def comp_def mset_insert_step
          id_completed_def [of "\<lparr>step_id = _, order = _, description = _, status = _,
             depends_on = _, step_notes = _, created_at = _, updated_at = _,
             completed_at = _\<rparr>"])
next
  show "mset (map id_completed (steps (snd (delete_step clock p sid'))))
       \<subseteq># mset (map id_completed (steps p))"
  proof (cases "get_step p sid'")
    case None
    then show ?thesis
      by (simp add: delete_step_def)
  next
    case (Some s)
    then have "steps (snd (delete_step clock p sid'))
               = renumber (sort_key order (filter (\<lambda>s. step_id s \<noteq> sid') (steps p)))"
      by (simp add: delete_step_def Let_def update_plan_status_def)
    then have "mset (map id_completed (steps (snd (delete_step clock p sid'))))
               = image_mset id_completed (filter_mset (\<lambda>s. step_id s \<noteq> sid') (mset (steps p)))"
      by (simp add: id_completed_renumber)
    also have "\<dots> \<subseteq># image_mset id_completed (mset (steps p))"
      by (intro image_mset_subseteq_mono multiset_filter_subset)
    finally show ?thesis
      by simp
  qed
qed

theorem update_step_keeps_completed_at_witness:
  "(0::nat) < length (steps worked_plan)
   \<and> status (steps worked_plan ! 0) = Step_Completed
   \<and> completed_at (steps worked_plan ! 0) = Some 4
   \<and> status (steps (snd (update_step (clock_from 8) worked_plan ''a'' (Some Step_Failed) None)) ! 0)
       = Step_Failed
   \<and> completed_at (steps (snd (update_step (clock_from 8) worked_plan ''a'' (Some Step_Failed) None)) ! 0)
       = Some 4
   \<and> map completed_at (steps (reset_steps (clock_from 8) worked_plan)) = [None, None]"
  using update_step_keeps_completed_at
          [of "clock_from 8" worked_plan "''a''" "Some Step_Failed" None "''n''" "''d''" None None
              None "''b''"]
  by (simp add: worked_plan_def example_defs update_step_def get_step_def update_status_def
        reset_steps_def update_plan_status_def)

subsection \<open>An update without arguments\<close>

text \<open>
  Claim C10. For the identifier of a step of the plan, \<open>update_step\<close> with neither a status
  nor notes returns \<open>True\<close>; the plan it returns has the same steps, the first clock
  reading as \<open>updated_at\<close>, and as status what the precedence rule of the specification
  gives for the statuses of its steps, whatever the status was before.
\<close>

theorem update_step_no_arguments:
  assumes "sid \<in> step_id ` set (steps p)"
  shows "update_step clock p sid None None
           = (True, p\<lparr>plan_updated_at := clock 0,
                     plan_status := status_rule (mset (map status (steps p)))\<rparr>)
         \<and> steps (snd (update_step clock p sid None None)) = steps p"
proof -
  from assms have "get_step p sid \<noteq> None"
    by (simp add: get_step_None_iff)
  then have "update_step clock p sid None None
               = (True, p\<lparr>plan_updated_at := clock 0, plan_status := derive_status (steps p)\<rparr>)"
    by (auto simp: update_step_def update_plan_status_def)
  then show ?thesis
    by (simp add: derive_status_rule)
qed

theorem update_step_no_arguments_witness:
  "''b'' \<in> step_id ` set (steps (mk_plan Plan_Paused all_completed))
   \<and> plan_status (mk_plan Plan_Paused all_completed) = Plan_Paused
   \<and> update_step (clock_from 30) (mk_plan Plan_Paused all_completed) ''b'' None None
       = (True, (mk_plan Plan_Paused all_completed)
                  \<lparr>plan_updated_at := 30, plan_status := Plan_Completed\<rparr>)
   \<and> steps (snd (update_step (clock_from 30) (mk_plan Plan_Paused all_completed) ''b'' None None))
       = steps (mk_plan Plan_Paused all_completed)"
proof -
  have known: "''b'' \<in> step_id ` set (steps (mk_plan Plan_Paused all_completed))"
    by (simp add: all_completed_def example_defs)
  from update_step_no_arguments [OF known, of "clock_from 30"] known show ?thesis
    by (simp add: all_completed_def example_defs status_rule_def)
qed

subsection \<open>Progress counts\<close>

lemma count_status_partition:
  "count_status Step_Completed ss + count_status Step_In_Progress ss
     + count_status Step_Pending ss + count_status Step_Failed ss
     + count_status Step_Skipped ss = length ss"
proof (induction ss)
  case Nil
  then show ?case by (simp add: count_status_def)
next
  case (Cons s ss)
  then show ?case
    by (cases "status s") (simp_all add: count_status_def)
qed

text \<open>
  Whatever the float arithmetic is, \<open>get_progress\<close> returns the number of steps as the
  total and five counts that add up to it, and for a plan without steps all counts are 0
  and the percentage is the literal \<^verbatim>\<open>0.0\<close>.
\<close>

lemma get_progress_counts:
  "total_steps (get_progress ops p) = length (steps p)
   \<and> completed_steps (get_progress ops p) + in_progress_steps (get_progress ops p)
       + pending_steps (get_progress ops p) + failed_steps (get_progress ops p)
       + skipped_steps (get_progress ops p) = total_steps (get_progress ops p)
   \<and> (steps p = [] \<longrightarrow>
         get_progress ops p =
           \<lparr>total_steps = 0, completed_steps = 0, in_progress_steps = 0, pending_steps = 0,
            failed_steps = 0, skipped_steps = 0, completion_percentage = float_zero ops\<rparr>)"
  using count_status_partition [of "steps p"]
  by (simp add: get_progress_def Let_def)

subsection \<open>Rounding to binary64\<close>

lemma round_half_even_error: "\<bar>of_int (round_half_even x) - x\<bar> \<le> 1 / 2"
proof -
  have "of_int \<lfloor>x\<rfloor> \<le> x" "x < of_int \<lfloor>x\<rfloor> + 1"
    by linarith+
  then show ?thesis
    by (auto simp: round_half_even_def Let_def)
qed

lemma round_half_even_le: "x \<le> of_int n \<Longrightarrow> round_half_even x \<le> n"
proof -
  assume le: "x \<le> of_int n"
  then have f: "\<lfloor>x\<rfloor> \<le> n"
    by (simp add: floor_le_iff) 
  show ?thesis
  proof (cases "x - of_int \<lfloor>x\<rfloor> < 1 / 2")
    case True
    with f show ?thesis by (simp add: round_half_even_def Let_def)
  next
    case False
    then have "of_int \<lfloor>x\<rfloor> < x" by linarith
    with le have "of_int \<lfloor>x\<rfloor> < (of_int n :: rat)" by linarith
    then have "\<lfloor>x\<rfloor> < n" by simp
    then show ?thesis by (auto simp: round_half_even_def Let_def)
  qed
qed

lemma round_half_even_ge: "of_int n \<le> x \<Longrightarrow> n \<le> round_half_even x"
proof -
  assume "of_int n \<le> x"
  then have "n \<le> \<lfloor>x\<rfloor>" by (simp add: le_floor_iff)
  then show ?thesis by (auto simp: round_half_even_def Let_def)
qed


lemma scale_exponent_Suc:
  "scale_exponent (Suc n) x = (if x < 2 ^ 52 then Suc (scale_exponent n (2 * x)) else 0)"
  by (simp only: scale_exponent.simps not_less [symmetric] if_not_P if_P split: if_splits) auto


lemma scale_exponent_ge:
  "0 \<le> x \<Longrightarrow> x * 2 ^ j < 2 * 2 ^ 52 \<Longrightarrow> j \<le> n \<Longrightarrow> j \<le> scale_exponent n x"
proof (induction n arbitrary: x j)
  case 0
  then show ?case by simp
next
  case (Suc n)
  show ?case
  proof (cases j)
    case 0
    then show ?thesis by simp
  next
    case (Suc i)
    have one: "(1::rat) \<le> 2 ^ i"
      by (rule one_le_power) simp
    from mult_left_mono [OF one Suc.prems(1)] have xi: "x \<le> x * 2 ^ i"
      by simp
    from Suc.prems(2) Suc have dbl: "2 * x * 2 ^ i < 2 * 2 ^ 52"
      by (simp only: power_Suc mult.assoc mult.left_commute [of x 2])
    then have "x * 2 ^ i < 2 ^ 52"
      by (simp only: mult.assoc mult_less_cancel_left_pos [of 2] zero_less_numeral)
    with xi have x: "x < 2 ^ 52"
      by (rule le_less_trans)
    from Suc.prems(1) have "0 \<le> 2 * x"
      by simp
    moreover from Suc.prems(3) Suc have "i \<le> n"
      by simp
    ultimately have "i \<le> scale_exponent n (2 * x)"
      using dbl by (intro Suc.IH)
    with x Suc show ?thesis
      by (simp only: scale_exponent_Suc if_True Suc_le_mono)
  qed
qed

lemma scale_exponent_eq:
  "2 ^ 52 \<le> x * 2 ^ k \<Longrightarrow> x * 2 ^ k < 2 * 2 ^ 52 \<Longrightarrow> k \<le> n \<Longrightarrow> scale_exponent n x = k"
proof (induction n arbitrary: x k)
  case 0
  then show ?case by simp
next
  case (Suc n)
  show ?case
  proof (cases k)
    case 0
    with Suc.prems(1) have "\<not> x < 2 ^ 52"
      by (simp only: power_0 mult_1_right not_less)
    with 0 show ?thesis
      by (simp only: scale_exponent_Suc if_False)
  next
    case (Suc i)
    have "(0::rat) < 2 ^ 52"
      by (rule zero_less_power) simp
    from this Suc.prems(1) have "0 < x * 2 ^ k"
      by (rule less_le_trans)
    moreover have "(0::rat) < 2 ^ k"
      by (rule zero_less_power) simp
    ultimately have pos: "0 < x"
      by (simp only: zero_less_mult_iff) auto
    have one: "(1::rat) \<le> 2 ^ i"
      by (rule one_le_power) simp
    from pos have "0 \<le> x" by simp
    from mult_left_mono [OF one this] have xi: "x \<le> x * 2 ^ i"
      by simp
    from Suc.prems(2) Suc have dbl: "2 * x * 2 ^ i < 2 * 2 ^ 52"
      by (simp only: power_Suc mult.assoc mult.left_commute [of x 2])
    then have "x * 2 ^ i < 2 ^ 52"
      by (simp only: mult.assoc mult_less_cancel_left_pos [of 2] zero_less_numeral)
    with xi have x: "x < 2 ^ 52"
      by (rule le_less_trans)
    from Suc.prems(1) Suc have "2 ^ 52 \<le> 2 * x * 2 ^ i"
      by (simp only: power_Suc mult.assoc mult.left_commute [of x 2])
    moreover from Suc.prems(3) Suc have "i \<le> n"
      by simp
    ultimately have "scale_exponent n (2 * x) = i"
      using dbl by (intro Suc.IH)
    with x Suc show ?thesis
      by (simp only: scale_exponent_Suc if_True)
  qed
qed


lemma round_binary64_scaled:
  "round_binary64 x
     = of_int (round_half_even (x * 2 ^ scale_exponent 1074 x)) / 2 ^ scale_exponent 1074 x"
  by (simp only: round_binary64_def Let_def)

lemma round_binary64_error:
  assumes "0 \<le> x" "x * 2 ^ j < 2 * 2 ^ 52" "j \<le> 1074"
  shows "\<bar>round_binary64 x - x\<bar> \<le> 1 / 2 ^ Suc j"
proof -
  define k where "k = scale_exponent 1074 x"
  define m :: rat where "m = of_int (round_half_even (x * 2 ^ k))"
  have jk: "j \<le> k"
    unfolding k_def using assms by (rule scale_exponent_ge)
  have pk: "(0::rat) < 2 ^ k"
    by (rule zero_less_power) simp
  have r: "round_binary64 x = m / 2 ^ k"
    by (simp only: round_binary64_scaled k_def m_def)
  have "m / 2 ^ k - x = (m - x * 2 ^ k) / 2 ^ k"
    using pk by (simp add: diff_divide_distrib)
  then have "\<bar>round_binary64 x - x\<bar> = \<bar>m - x * 2 ^ k\<bar> / 2 ^ k"
    using pk by (simp only: r abs_divide abs_of_pos)
  also have "\<dots> \<le> (1 / 2) / 2 ^ k"
    unfolding m_def using pk by (intro divide_right_mono round_half_even_error less_imp_le)
  also have "\<dots> = 1 / 2 ^ Suc k"
    by (simp only: power_Suc divide_divide_eq_left)
  also have "\<dots> \<le> 1 / 2 ^ Suc j"
  proof -
    from jk have "(2::rat) ^ Suc j \<le> 2 ^ Suc k"
      by (intro power_increasing) simp_all
    moreover have "(0::rat) < 2 ^ Suc j"
      by (rule zero_less_power) simp
    ultimately show ?thesis
      by (intro divide_left_mono) (simp_all del: power_Suc)
  qed
  finally show ?thesis .
qed

lemma round_binary64_nonneg:
  assumes "0 \<le> x"
  shows "0 \<le> round_binary64 x"
proof -
  define k where "k = scale_exponent 1074 x"
  have pk: "(0::rat) < 2 ^ k"
    by (rule zero_less_power) simp
  with assms have "of_int 0 \<le> x * 2 ^ k"
    by simp
  then have "0 \<le> round_half_even (x * 2 ^ k)"
    by (rule round_half_even_ge)
  then have "(0::rat) \<le> of_int (round_half_even (x * 2 ^ k))"
    by simp
  with pk have "0 \<le> of_int (round_half_even (x * 2 ^ k)) / (2::rat) ^ k"
    by (intro divide_nonneg_pos)
  then show ?thesis
    by (simp only: round_binary64_scaled k_def)
qed

lemma round_binary64_le_int:
  assumes "x \<le> of_int n"
  shows "round_binary64 x \<le> of_int n"
proof -
  define k where "k = scale_exponent 1074 x"
  have pk: "(0::rat) < 2 ^ k"
    by (rule zero_less_power) simp
  have "x * 2 ^ k \<le> of_int n * 2 ^ k"
    using assms pk by (simp only: mult_le_cancel_right_pos)
  also have "\<dots> = of_int (n * 2 ^ k)"
    by simp
  finally have "round_half_even (x * 2 ^ k) \<le> n * 2 ^ k"
    by (rule round_half_even_le)
  then have "(of_int (round_half_even (x * 2 ^ k)) :: rat) \<le> of_int (n * 2 ^ k)"
    by (simp only: of_int_le_iff)
  then have "(of_int (round_half_even (x * 2 ^ k)) :: rat) \<le> of_int n * 2 ^ k"
    by simp
  with pk have "of_int (round_half_even (x * 2 ^ k)) / 2 ^ k \<le> (of_int n :: rat)"
    by (simp only: pos_divide_le_eq)
  then show ?thesis
    by (simp only: round_binary64_scaled k_def)
qed


lemma round_binary64_unit:
  assumes "0 \<le> x" "x \<le> 1"
  shows "0 \<le> round_binary64 x" "round_binary64 x \<le> 1" "\<bar>round_binary64 x - x\<bar> \<le> 1 / 2 ^ 53"
proof -
  show "0 \<le> round_binary64 x"
    using assms(1) by (rule round_binary64_nonneg)
  from assms(2) have "x \<le> of_int 1" by simp
  from round_binary64_le_int [OF this] show "round_binary64 x \<le> 1" by simp
  have "(0::rat) < 2 ^ 52" by simp
  with assms(2) have "x * 2 ^ 52 \<le> 1 * 2 ^ 52"
    by (simp only: mult_le_cancel_right_pos)
  then have "x * 2 ^ 52 < 2 * 2 ^ 52" by simp
  from round_binary64_error [OF assms(1) this] show "\<bar>round_binary64 x - x\<bar> \<le> 1 / 2 ^ 53"
    by simp
qed

lemma round_binary64_percent:
  assumes "0 \<le> x" "x \<le> 100"
  shows "0 \<le> round_binary64 x" "round_binary64 x \<le> 100" "\<bar>round_binary64 x - x\<bar> \<le> 1 / 2 ^ 47"
proof -
  show "0 \<le> round_binary64 x"
    using assms(1) by (rule round_binary64_nonneg)
  from assms(2) have "x \<le> of_int 100" by simp
  from round_binary64_le_int [OF this] show "round_binary64 x \<le> 100" by simp
  have "(0::rat) < 2 ^ 46" by simp
  with assms(2) have "x * 2 ^ 46 \<le> 100 * 2 ^ 46"
    by (simp only: mult_le_cancel_right_pos)
  then have "x * 2 ^ 46 < 2 * 2 ^ 52" by simp
  from round_binary64_error [OF assms(1) this] show "\<bar>round_binary64 x - x\<bar> \<le> 1 / 2 ^ 47"
    by simp
qed

lemma error_chain:
  fixes w z q x d e f :: rat
  assumes "\<bar>w - z\<bar> \<le> d" "\<bar>z - q * 100\<bar> \<le> e" "\<bar>q - x\<bar> \<le> f"
  shows "\<bar>w - 100 * x\<bar> \<le> d + e + 100 * f"
  using assms unfolding abs_le_iff by linarith

lemma error_step:
  fixes r w x a b :: rat
  assumes "\<bar>r - w\<bar> \<le> a" "\<bar>w - x\<bar> \<le> b"
  shows "\<bar>r - x\<bar> \<le> a + b"
  using assms unfolding abs_le_iff by linarith

lemma error_hundredth:
  fixes k z :: rat
  assumes "\<bar>k - z * 100\<bar> \<le> 1 / 2"
  shows "\<bar>k / 100 - z\<bar> \<le> 1 / 200"
  using assms unfolding abs_le_iff by linarith

lemma python_percentage_bounds:
  assumes "0 < t" "c \<le> t"
  shows "\<exists>k. 0 \<le> k \<and> k \<le> 10000
              \<and> python_percentage c t = round_binary64 (of_int k / 100)
              \<and> \<bar>of_int k / 100 - 100 * of_nat c / of_nat t\<bar> \<le> (1 / 200 + 1 / 2 ^ 45 :: rat)"
    and "0 \<le> python_percentage c t"
    and "python_percentage c t \<le> 100"
    and "\<bar>python_percentage c t - 100 * of_nat c / of_nat t\<bar> < 1 / 100"
proof -
  define x :: rat where "x = of_nat c / of_nat t"
  define q where "q = round_binary64 x"
  define z where "z = round_binary64 (q * 100)"
  define k where "k = round_half_even (z * 100)"
  define w :: rat where "w = of_int k / 100"
  have x: "0 \<le> x" "x \<le> 1"
    using assms by (simp_all add: x_def)
  note q = round_binary64_unit [OF x, folded q_def]
  from q(1,2) have y: "0 \<le> q * 100" "q * 100 \<le> 100"
    by simp_all
  note z = round_binary64_percent [OF y, folded z_def]
  from z(1,2) have z100: "of_int 0 \<le> z * 100" "z * 100 \<le> of_int 10000"
    by simp_all
  have k: "0 \<le> k" "k \<le> 10000"
    unfolding k_def
    by (rule round_half_even_ge [OF z100(1)], rule round_half_even_le [OF z100(2)])
  have "\<bar>of_int k - z * 100\<bar> \<le> 1 / 2"
    unfolding k_def by (rule round_half_even_error)
  then have wz: "\<bar>w - z\<bar> \<le> 1 / 200"
    unfolding w_def by (rule error_hundredth)
  from k have w: "0 \<le> w" "w \<le> 100"
    by (simp_all add: w_def)
  note r = round_binary64_percent [OF w]
  have p: "python_percentage c t = round_binary64 w"
    by (simp only: python_percentage_def w_def k_def z_def q_def x_def)
  have exact: "100 * of_nat c / of_nat t = 100 * x"
    by (simp add: x_def)
  have e1: "\<bar>w - 100 * x\<bar> \<le> 1 / 200 + 1 / 2 ^ 45"
  proof -
    have "(1::rat) / 200 + 1 / 2 ^ 47 + 100 * (1 / 2 ^ 53) \<le> 1 / 200 + 1 / 2 ^ 45"
      by simp
    with error_chain [OF wz z(3) q(3)] show ?thesis
      by (rule order_trans)
  qed
  have "0 \<le> k \<and> k \<le> 10000
          \<and> python_percentage c t = round_binary64 (of_int k / 100)
          \<and> \<bar>of_int k / 100 - 100 * of_nat c / of_nat t\<bar> \<le> (1 / 200 + 1 / 2 ^ 45 :: rat)"
    using k p e1 unfolding exact w_def by (intro conjI)
  then show "\<exists>k. 0 \<le> k \<and> k \<le> 10000
              \<and> python_percentage c t = round_binary64 (of_int k / 100)
              \<and> \<bar>of_int k / 100 - 100 * of_nat c / of_nat t\<bar> \<le> (1 / 200 + 1 / 2 ^ 45 :: rat)"
    by (rule exI)
  from r(1) show "0 \<le> python_percentage c t"
    by (simp only: p)
  from r(2) show "python_percentage c t \<le> 100"
    by (simp only: p)
  show "\<bar>python_percentage c t - 100 * of_nat c / of_nat t\<bar> < 1 / 100"
  proof -
    have "(1::rat) / 2 ^ 47 + (1 / 200 + 1 / 2 ^ 45) < 1 / 100"
      by simp
    with error_step [OF r(3) e1] show ?thesis
      unfolding exact p by (rule le_less_trans)
  qed
qed


lemma round_binary64_at:
  assumes "2 ^ 52 \<le> x * 2 ^ k" "x * 2 ^ k < 2 * 2 ^ 52" "k \<le> 1074"
  shows "round_binary64 x = of_int (round_half_even (x * 2 ^ k)) / 2 ^ k"
  using scale_exponent_eq [OF assms] by (simp only: round_binary64_scaled)

lemma round_half_even_down:
  assumes "of_int n \<le> x" "x < of_int n + 1 / 2"
  shows "round_half_even x = n"
proof -
  from assms have "\<lfloor>x\<rfloor> = n"
    by (intro floor_unique) simp_all
  with assms show ?thesis
    by (simp add: round_half_even_def Let_def)
qed

lemma round_half_even_up:
  assumes "of_int n - 1 / 2 < x" "x < of_int n"
  shows "round_half_even x = n"
proof -
  from assms have "\<lfloor>x\<rfloor> = n - 1"
    by (intro floor_unique) simp_all
  with assms show ?thesis
    by (simp add: round_half_even_def Let_def)
qed

lemma round_binary64_down:
  assumes "2 ^ 52 \<le> x * 2 ^ k" "x * 2 ^ k < 2 * 2 ^ 52" "k \<le> 1074"
    and "of_int m \<le> x * 2 ^ k" "x * 2 ^ k < of_int m + 1 / 2"
  shows "round_binary64 x = of_int m / 2 ^ k"
  using round_binary64_at [OF assms(1-3)] round_half_even_down [OF assms(4,5)]
  by (simp only:)

lemma round_binary64_up:
  assumes "2 ^ 52 \<le> x * 2 ^ k" "x * 2 ^ k < 2 * 2 ^ 52" "k \<le> 1074"
    and "of_int m - 1 / 2 < x * 2 ^ k" "x * 2 ^ k < of_int m"
  shows "round_binary64 x = of_int m / 2 ^ k"
  using round_binary64_at [OF assms(1-3)] round_half_even_up [OF assms(4,5)]
  by (simp only:)

lemma quotient_23_160: "round_binary64 (23 / 160) = 5179139571476070 / 2 ^ 55"
  using round_binary64_down [of "23 / 160" 55 5179139571476070] by simp

lemma product_23_160:
  "round_binary64 (5179139571476070 / 2 ^ 55 * 100) = 8092405580431359 / 2 ^ 49"
  using round_binary64_down [of "5179139571476070 / 2 ^ 55 * 100" 49 8092405580431359] by simp

lemma hundredths_23_160: "round_half_even (8092405580431359 / 2 ^ 49 * 100) = 1437"
  using round_half_even_down [of 1437 "8092405580431359 / 2 ^ 49 * 100"] by simp

lemma binary64_14_37: "round_binary64 (1437 / 100) = 8089590830664253 / 2 ^ 49"
  using round_binary64_down [of "1437 / 100" 49 8089590830664253] by simp

lemma binary64_14_38: "round_binary64 (1438 / 100) = 8095220330198467 / 2 ^ 49"
  using round_binary64_up [of "1438 / 100" 49 8095220330198467] by simp

lemma python_percentage_23_160: "python_percentage 23 160 = round_binary64 (1437 / 100)"
  by (simp only: python_percentage_def of_nat_numeral quotient_23_160 product_23_160
        hundredths_23_160 of_int_numeral)


subsection \<open>The completion percentage\<close>

lemma count_status_le: "count_status st ss \<le> length ss"
  by (simp add: count_status_def)

lemma count_status_append:
  "count_status st (xs @ ys) = count_status st xs + count_status st ys"
  by (simp add: count_status_def)

lemma length_numbered_steps: "length (numbered_steps st first n) = n"
  by (induction n arbitrary: first) simp_all

lemma count_status_numbered_steps:
  "count_status st' (numbered_steps st first n) = (if st' = st then n else 0)"
  by (induction n arbitrary: first) (auto simp: count_status_def mk_step_def)

lemma completion_percentage_binary64:
  "completion_percentage (get_progress binary64_ops p) =
     (if steps p = [] then 0
      else python_percentage (count_status Step_Completed (steps p)) (length (steps p)))"
  by (simp add: get_progress_def binary64_ops_def python_percentage_def Let_def)

lemma buckets_get_progress:
  "completed_steps (get_progress ops p) = count_status Step_Completed (steps p)"
  "in_progress_steps (get_progress ops p) = count_status Step_In_Progress (steps p)"
  "pending_steps (get_progress ops p) = count_status Step_Pending (steps p)"
  "failed_steps (get_progress ops p) = count_status Step_Failed (steps p)"
  "skipped_steps (get_progress ops p) = count_status Step_Skipped (steps p)"
  by (simp_all add: get_progress_def Let_def count_status_def)

lemma progress_plan_23_of_160:
  "length (steps plan_23_of_160) = 160"
  "count_status Step_Completed (steps plan_23_of_160) = 23"
  by (simp_all add: plan_23_of_160_def mk_plan_def length_numbered_steps count_status_append
        count_status_numbered_steps)

text \<open>
  Claim C4 (as amended). \<open>get_progress\<close> returns the number of steps as the total and, in
  the five buckets, the numbers of steps with each status, which add up to the total.
  The completion percentage lies between 0 and 100. For a plan with steps it is the
  binary64 number nearest to a two-decimal value \<open>k / 100\<close> that is within
  \<open>1 / 200 + 1 / 2 ^ 45\<close> of \<open>100 \<times> completed / total\<close>, and it is itself within
  \<open>1 / 100\<close> of \<open>100 \<times> completed / total\<close>. For a plan without steps all counts are
  0 and the percentage is \<^verbatim>\<open>0.0\<close>.
\<close>

theorem get_progress_binary64:
  "total_steps (get_progress binary64_ops p) = length (steps p)
   \<and> completed_steps (get_progress binary64_ops p) = count_status Step_Completed (steps p)
   \<and> in_progress_steps (get_progress binary64_ops p) = count_status Step_In_Progress (steps p)
   \<and> pending_steps (get_progress binary64_ops p) = count_status Step_Pending (steps p)
   \<and> failed_steps (get_progress binary64_ops p) = count_status Step_Failed (steps p)
   \<and> skipped_steps (get_progress binary64_ops p) = count_status Step_Skipped (steps p)
   \<and> completed_steps (get_progress binary64_ops p)
       + in_progress_steps (get_progress binary64_ops p)
       + pending_steps (get_progress binary64_ops p)
       + failed_steps (get_progress binary64_ops p)
       + skipped_steps (get_progress binary64_ops p) = total_steps (get_progress binary64_ops p)
   \<and> 0 \<le> completion_percentage (get_progress binary64_ops p)
   \<and> completion_percentage (get_progress binary64_ops p) \<le> 100
   \<and> (steps p \<noteq> [] \<longrightarrow>
         (\<exists>k. 0 \<le> k \<and> k \<le> 10000
               \<and> completion_percentage (get_progress binary64_ops p)
                   = round_binary64 (of_int k / 100)
               \<and> \<bar>of_int k / 100
                     - exact_percentage (completed_steps (get_progress binary64_ops p))
                         (total_steps (get_progress binary64_ops p))\<bar>
                   \<le> 1 / 200 + 1 / 2 ^ 45)
       \<and> \<bar>completion_percentage (get_progress binary64_ops p)
             - exact_percentage (completed_steps (get_progress binary64_ops p))
                 (total_steps (get_progress binary64_ops p))\<bar> < 1 / 100)
   \<and> (steps p = [] \<longrightarrow>
         get_progress binary64_ops p =
           \<lparr>total_steps = 0, completed_steps = 0, in_progress_steps = 0, pending_steps = 0,
            failed_steps = 0, skipped_steps = 0, completion_percentage = 0\<rparr>)"
proof -
  define c where "c = count_status Step_Completed (steps p)"
  define t where "t = length (steps p)"
  note counts = get_progress_counts [of binary64_ops p]
  from counts have total: "total_steps (get_progress binary64_ops p) = t"
    unfolding t_def by (rule conjunct1)
  have completed: "completed_steps (get_progress binary64_ops p) = c"
    by (simp only: buckets_get_progress c_def)
  from counts have sum: "completed_steps (get_progress binary64_ops p)
       + in_progress_steps (get_progress binary64_ops p)
       + pending_steps (get_progress binary64_ops p)
       + failed_steps (get_progress binary64_ops p)
       + skipped_steps (get_progress binary64_ops p) = total_steps (get_progress binary64_ops p)"
    by (elim conjE)
  have ct: "c \<le> t"
    unfolding c_def t_def by (rule count_status_le)
  have range: "0 \<le> completion_percentage (get_progress binary64_ops p)
             \<and> completion_percentage (get_progress binary64_ops p) \<le> 100"
  proof (cases "steps p = []")
    case True
    then show ?thesis
      by (simp add: completion_percentage_binary64)
  next
    case False
    then have "0 < t"
      by (simp add: t_def)
    from python_percentage_bounds(2,3) [OF this ct] False show ?thesis
      by (simp add: completion_percentage_binary64 c_def t_def)
  qed
  have close: "(\<exists>k. 0 \<le> k \<and> k \<le> 10000
               \<and> completion_percentage (get_progress binary64_ops p)
                   = round_binary64 (of_int k / 100)
               \<and> \<bar>of_int k / 100 - exact_percentage c t\<bar> \<le> 1 / 200 + 1 / 2 ^ 45)
       \<and> \<bar>completion_percentage (get_progress binary64_ops p) - exact_percentage c t\<bar>
             < 1 / 100"
    if "steps p \<noteq> []"
  proof -
    from that have pos: "0 < t"
      by (simp add: t_def)
    from that have pct: "completion_percentage (get_progress binary64_ops p) = python_percentage c t"
      by (simp add: completion_percentage_binary64 c_def t_def)
    from python_percentage_bounds(1,4) [OF pos ct] show ?thesis
      unfolding pct exact_percentage_def by (rule conjI)
  qed
  have empty: "get_progress binary64_ops p =
           \<lparr>total_steps = 0, completed_steps = 0, in_progress_steps = 0, pending_steps = 0,
            failed_steps = 0, skipped_steps = 0, completion_percentage = 0\<rparr>"
    if "steps p = []"
    using counts that by (simp add: binary64_ops_def)
  show ?thesis
  proof (intro conjI impI)
    show "total_steps (get_progress binary64_ops p) = length (steps p)"
      by (simp only: total t_def)
    show "completed_steps (get_progress binary64_ops p)
       + in_progress_steps (get_progress binary64_ops p)
       + pending_steps (get_progress binary64_ops p)
       + failed_steps (get_progress binary64_ops p)
       + skipped_steps (get_progress binary64_ops p) = total_steps (get_progress binary64_ops p)"
      by (rule sum)
    show "0 \<le> completion_percentage (get_progress binary64_ops p)"
      using range by (rule conjunct1)
    show "completion_percentage (get_progress binary64_ops p) \<le> 100"
      using range by (rule conjunct2)
  next
    assume "steps p \<noteq> []"
    from close [OF this]
    show "\<exists>k. 0 \<le> k \<and> k \<le> 10000
               \<and> completion_percentage (get_progress binary64_ops p)
                   = round_binary64 (of_int k / 100)
               \<and> \<bar>of_int k / 100
                     - exact_percentage (completed_steps (get_progress binary64_ops p))
                         (total_steps (get_progress binary64_ops p))\<bar>
                   \<le> 1 / 200 + 1 / 2 ^ 45"
      and "\<bar>completion_percentage (get_progress binary64_ops p)
             - exact_percentage (completed_steps (get_progress binary64_ops p))
                 (total_steps (get_progress binary64_ops p))\<bar> < 1 / 100"
      unfolding total completed by (rule conjunct1, rule conjunct2)
  next
    assume "steps p = []"
    then show "get_progress binary64_ops p =
           \<lparr>total_steps = 0, completed_steps = 0, in_progress_steps = 0, pending_steps = 0,
            failed_steps = 0, skipped_steps = 0, completion_percentage = 0\<rparr>"
      by (rule empty)
  qed (rule buckets_get_progress)+
qed

theorem get_progress_binary64_witness:
  "steps plan_23_of_160 \<noteq> []
   \<and> total_steps (get_progress binary64_ops plan_23_of_160) = 160
   \<and> completed_steps (get_progress binary64_ops plan_23_of_160) = 23
   \<and> pending_steps (get_progress binary64_ops plan_23_of_160) = 137
   \<and> \<bar>completion_percentage (get_progress binary64_ops plan_23_of_160)
         - exact_percentage 23 160\<bar> < 1 / 100
   \<and> steps (mk_plan Plan_Not_Started []) = []
   \<and> get_progress binary64_ops (mk_plan Plan_Not_Started []) =
         \<lparr>total_steps = 0, completed_steps = 0, in_progress_steps = 0, pending_steps = 0,
          failed_steps = 0, skipped_steps = 0, completion_percentage = 0\<rparr>"
proof -
  have nonempty: "steps plan_23_of_160 \<noteq> []"
    using progress_plan_23_of_160(1) by auto
  have pending: "count_status Step_Pending (steps plan_23_of_160) = 137"
    by (simp add: plan_23_of_160_def mk_plan_def count_status_append count_status_numbered_steps)
  have empty: "steps (mk_plan Plan_Not_Started []) = []"
    by (simp add: mk_plan_def)
  have total: "total_steps (get_progress binary64_ops plan_23_of_160) = 160"
    using get_progress_binary64 [of plan_23_of_160]
    by (simp only: progress_plan_23_of_160)
  have completed: "completed_steps (get_progress binary64_ops plan_23_of_160) = 23"
    using get_progress_binary64 [of plan_23_of_160]
    by (simp only: progress_plan_23_of_160)
  have pending': "pending_steps (get_progress binary64_ops plan_23_of_160) = 137"
    using get_progress_binary64 [of plan_23_of_160]
    by (simp only: pending)
  from get_progress_binary64 [of plan_23_of_160] nonempty
  have "\<bar>completion_percentage (get_progress binary64_ops plan_23_of_160)
         - exact_percentage (completed_steps (get_progress binary64_ops plan_23_of_160))
             (total_steps (get_progress binary64_ops plan_23_of_160))\<bar> < 1 / 100"
    by blast
  then have near: "\<bar>completion_percentage (get_progress binary64_ops plan_23_of_160)
         - exact_percentage 23 160\<bar> < 1 / 100"
    by (simp only: total completed)
  from get_progress_binary64 [of "mk_plan Plan_Not_Started []"] empty
  have zero: "get_progress binary64_ops (mk_plan Plan_Not_Started []) =
         \<lparr>total_steps = 0, completed_steps = 0, in_progress_steps = 0, pending_steps = 0,
          failed_steps = 0, skipped_steps = 0, completion_percentage = 0\<rparr>"
    by blast
  from nonempty total completed pending' near empty zero show ?thesis
    by (intro conjI)
qed

text \<open>
  The claim as first stated makes the percentage equal to \<open>100 \<times> completed / total\<close>
  rounded to two decimal places. With 23 of 160 steps completed that number is 14.375
  and rounds to 14.38 (ties to even or away from 0 alike). The code divides first: the
  quotient 23 / 160 is rounded to binary64, its product with 100 is rounded again and
  lies below 14.375, so \<^verbatim>\<open>round\<close> gives the binary64 number nearest to 14.37.
\<close>

theorem completion_percentage_counterexample:
  "total_steps (get_progress binary64_ops plan_23_of_160) = 160
   \<and> completed_steps (get_progress binary64_ops plan_23_of_160) = 23
   \<and> exact_percentage 23 160 = 14375 / 1000
   \<and> rounded_2 (exact_percentage 23 160) = 1438 / 100
   \<and> rounded_2_half_up (exact_percentage 23 160) = 1438 / 100
   \<and> completion_percentage (get_progress binary64_ops plan_23_of_160)
       = round_binary64 (1437 / 100)
   \<and> completion_percentage (get_progress binary64_ops plan_23_of_160)
       \<noteq> rounded_2 (exact_percentage 23 160)
   \<and> completion_percentage (get_progress binary64_ops plan_23_of_160)
       \<noteq> round_binary64 (rounded_2 (exact_percentage 23 160))"
proof -
  have nonempty: "steps plan_23_of_160 \<noteq> []"
    using progress_plan_23_of_160(1) by auto
  have exact: "exact_percentage 23 160 = 14375 / 1000"
    by (simp add: exact_percentage_def)
  have "\<lfloor>2875 / 2 :: rat\<rfloor> = 1437"
    by (rule floor_unique) simp_all
  then have even: "rounded_2 (14375 / 1000) = 1438 / 100"
    by (simp add: rounded_2_def round_half_even_def Let_def)
  have up: "rounded_2_half_up (14375 / 1000) = 1438 / 100"
    by (simp add: rounded_2_half_up_def)
  have pct: "completion_percentage (get_progress binary64_ops plan_23_of_160)
             = round_binary64 (1437 / 100)"
    using nonempty
    by (simp only: completion_percentage_binary64 progress_plan_23_of_160
          python_percentage_23_160 if_False)
  have total: "total_steps (get_progress binary64_ops plan_23_of_160) = 160"
    using get_progress_counts [of binary64_ops plan_23_of_160]
    by (simp only: progress_plan_23_of_160)
  have completed: "completed_steps (get_progress binary64_ops plan_23_of_160) = 23"
    by (simp only: buckets_get_progress progress_plan_23_of_160)
  have differ: "round_binary64 (1437 / 100) \<noteq> 1438 / 100"
    "round_binary64 (1437 / 100) \<noteq> round_binary64 (1438 / 100)"
    unfolding binary64_14_37 binary64_14_38 by simp_all
  from total completed exact even up pct differ show ?thesis
    by (simp only: simp_thms)
qed

end
